theory Spec2Isabelle
  imports Main "HOL-Library.Word"
begin

unbundle bit_operations_syntax

section \<open>Machine integers of the Go source\<close>

text \<open>
  \<^verbatim>\<open>uint64\<close> is a 64-bit word and \<^verbatim>\<open>byte\<close> an 8-bit word. Go's \<^verbatim>\<open>int\<close> is a
  64-bit two's-complement integer: it is modelled as a HOL \<open>int\<close>, and every arithmetic
  result on it is passed through \<open>go_int\<close>, which writes the wrap-around out.
\<close>

type_synonym u64 = "64 word"
type_synonym byte = "8 word"

definition go_int :: "int \<Rightarrow> int" where
  "go_int i = signed_take_bit 63 i"

text \<open>
  Go's shifts of a \<^verbatim>\<open>uint64\<close> by a signed count: a negative count is a run-time
  panic (\<open>None\<close>); a count of 64 or more shifts every bit out and gives 0, which is what
  \<open>push_bit\<close> and \<open>drop_bit\<close> on a 64-bit word do.
\<close>

definition shl_u64 :: "u64 \<Rightarrow> int \<Rightarrow> u64 option" where
  "shl_u64 x n = (if n < 0 then None else Some (push_bit (nat n) x))"

definition shr_u64 :: "u64 \<Rightarrow> int \<Rightarrow> u64 option" where
  "shr_u64 x n = (if n < 0 then None else Some (drop_bit (nat n) x))"

section \<open>Constants and data types of package mhash\<close>

definition maxDeepLevels :: int where
  "maxDeepLevels = 5"

definition MaxUint64 :: u64 where
  "MaxUint64 = - 1"

definition bitSetShift :: nat where
  "bitSetShift = 3"

definition bitSetMask :: int where
  "bitSetMask = 2 ^ bitSetShift - 1"

definition bitSetBytes :: nat where
  "bitSetBytes = 256 div 2 ^ bitSetShift"

record 't Null =
  Valid :: bool
  Data :: 't

text \<open>\<^verbatim>\<open>type BitSet [bitSetBytes]byte\<close>: the values of the Go type are the lists of
  length \<open>bitSetBytes\<close>.\<close>

type_synonym BitSet = "byte list"

record 't Bucket =
  Items :: "'t list"
  Bitset :: BitSet

record 'r BucketKey =
  RootKey :: 'r
  Hash :: u64
  HashLen :: int

section \<open>Hash-prefix arithmetic\<close>

text \<open>
  \<^verbatim>\<open>return hash & (math.MaxUint64 << (64 - 8*hashLen))\<close>
\<close>

definition computeHashAtLevel :: "u64 \<Rightarrow> int \<Rightarrow> u64 option" where
  "computeHashAtLevel hash hashLen =
     (case shl_u64 MaxUint64 (go_int (64 - go_int (8 * hashLen))) of
        None \<Rightarrow> None
      | Some m \<Rightarrow> Some (hash AND m))"

text \<open>
  \<^verbatim>\<open>offset := (hash >> (64 - 8 - currentHashLen*8)) & 0xff; return int(offset)\<close>
\<close>

definition computeBitOffsetAtNextLevel :: "u64 \<Rightarrow> int \<Rightarrow> int option" where
  "computeBitOffsetAtNextLevel hash currentHashLen =
     (case shr_u64 hash (go_int (go_int (64 - 8) - go_int (currentHashLen * 8))) of
        None \<Rightarrow> None
      | Some w \<Rightarrow> Some (go_int (uint (w AND 0xff))))"

section \<open>Rendering a bucket key\<close>

text \<open>
  \<^verbatim>\<open>binary.BigEndian.PutUint64(data[:], v)\<close> of the Go standard library stores
  \<^verbatim>\<open>byte(v >> 56)\<close> at index 0 down to \<^verbatim>\<open>byte(v)\<close> at index 7.
\<close>

definition PutUint64 :: "u64 \<Rightarrow> byte list" where
  "PutUint64 v =
     [ucast (drop_bit 56 v), ucast (drop_bit 48 v), ucast (drop_bit 40 v),
      ucast (drop_bit 32 v), ucast (drop_bit 24 v), ucast (drop_bit 16 v),
      ucast (drop_bit 8 v), ucast v]"

text \<open>
  \<^verbatim>\<open>hex.EncodeToString\<close> of the Go standard library writes, for each byte \<open>v\<close>,
  \<^verbatim>\<open>hextable[v>>4]\<close> and \<^verbatim>\<open>hextable[v&0x0f]\<close>.
\<close>

definition hextable :: string where
  "hextable = ''0123456789abcdef''"

fun EncodeToString :: "byte list \<Rightarrow> string" where
  "EncodeToString [] = []"
| "EncodeToString (v # vs) =
     hextable ! unat (drop_bit 4 v) # hextable ! unat (v AND 0x0f) # EncodeToString vs"

text \<open>
  \<^verbatim>\<open>func (k BucketKey[R]) String() string\<close>. The method \<^verbatim>\<open>String\<close> of the root key
  type \<open>'r\<close> is the parameter \<open>RootKey_String\<close>. The slice expression
  \<^verbatim>\<open>data[:k.HashLen]\<close> on the 8-byte array panics (\<open>None\<close>) unless
  \<open>0 \<le> HashLen \<le> 8\<close>.
\<close>

definition BucketKey_String :: "('r \<Rightarrow> string) \<Rightarrow> 'r BucketKey \<Rightarrow> string option" where
  "BucketKey_String RootKey_String k =
     (let data = PutUint64 (Hash k) in
      if 0 \<le> HashLen k \<and> HashLen k \<le> 8
      then Some (RootKey_String (RootKey k) @ '':'' @ EncodeToString (take (nat (HashLen k)) data))
      else None)"

section \<open>Reading a bit set\<close>

text \<open>
  Modelled from the spec: the method \<^verbatim>\<open>GetBit\<close> of \<^verbatim>\<open>BitSet\<close> is called by
  \<^verbatim>\<open>Get\<close> but declared in another file of the package. The spec says:
  ``\<^verbatim>\<open>GetBit(offset)\<close> returns whether position \<^verbatim>\<open>offset\<close> (0--255) is set''. The
  position is split with the constants \<open>bitSetShift\<close> and \<open>bitSetMask\<close> of the source into
  a byte index and a bit index. No theorem below depends on this layout: each of them
  uses \<open>GetBit\<close> only through its value on the buckets at hand.
\<close>

definition GetBit :: "BitSet \<Rightarrow> int \<Rightarrow> bool" where
  "GetBit b index =
     (let pos = nat (drop_bit bitSetShift index);
          offset = nat (index AND bitSetMask)
      in bit (b ! pos) offset)"

section \<open>The lookup engine\<close>

text \<open>
  A Go \<^verbatim>\<open>error\<close> is either the package's sentinel \<^verbatim>\<open>ErrHashTooDeep\<close> or some other
  error value, of a type \<open>'e\<close> that the item accessor chooses.
\<close>

datatype 'e error = ErrHashTooDeep | BackendError 'e

text \<open>
  \<^verbatim>\<open>type Hash[T, R, K] struct { sess; getKey; bucketItem }\<close>. The item accessor
  \<^verbatim>\<open>bucketItem\<close> and the session \<^verbatim>\<open>sess\<close> belong to other packages. The accessor is
  the parameter \<open>bucketItem\<close>: the pair \<^verbatim>\<open>(Bucket, error)\<close> that the deferred function
  returned by \<^verbatim>\<open>h.bucketItem.Get(ctx, key)\<close> yields, as a sum (\<open>Inl\<close> when the error is
  not \<^verbatim>\<open>nil\<close>). The capabilities of the type parameters are fields too: \<open>Key_Hash\<close> is
  the method \<^verbatim>\<open>Hash()\<close> of the key type \<open>'k\<close> (whose \<^verbatim>\<open>==\<close> is HOL equality), and
  \<open>zero_T\<close> is the zero value of the item type \<open>'t\<close>.
\<close>

record ('t, 'r, 'k, 'e) Hash =
  getKey :: "'t \<Rightarrow> 'k"
  bucketItem :: "'r BucketKey \<Rightarrow> 'e error + 't Bucket"
  Key_Hash :: "'k \<Rightarrow> u64"
  zero_T :: 't

record ('t, 'e) getResult =
  resp :: "'t Null"
  err :: "'e error option"

text \<open>
  The calls that one \<^verbatim>\<open>Get\<close> makes are recorded, in order, with their arguments. The
  record is not part of the Go state: it is what the statements about the number of
  fetches and about the arguments of the arithmetic functions speak about.
\<close>

datatype 'r call =
    Call_computeHashAtLevel u64 int
  | Call_computeBitOffsetAtNextLevel u64 int
  | Call_bucketItem_Get "'r BucketKey"

text \<open>
  The variables that the closures \<^verbatim>\<open>doGetFn\<close> and \<^verbatim>\<open>nextCallFn\<close> of one \<^verbatim>\<open>Get\<close>
  share: \<^verbatim>\<open>hashLen\<close>, \<^verbatim>\<open>rootBucketFn\<close> (\<open>None\<close> is the \<^verbatim>\<open>nil\<close> function it starts
  as) and \<^verbatim>\<open>result\<close>; \<open>nextCall\<close> says whether \<^verbatim>\<open>nextCallFn\<close> is in the session's
  queue, put there by \<^verbatim>\<open>h.sess.AddNextCall(nextCallFn)\<close>.
\<close>

record ('t, 'r, 'e) getState =
  hashLen :: int
  rootBucketFn :: "('e error + 't Bucket) option"
  nextCall :: bool
  result :: "('t, 'e) getResult"
  calls :: "'r call list"

definition doGetFn ::
  "('t, 'r, 'k, 'e) Hash \<Rightarrow> 'r \<Rightarrow> u64 \<Rightarrow> ('t, 'r, 'e) getState \<Rightarrow> ('t, 'r, 'e) getState option" where
  "doGetFn h rootKey keyHash st =
     (case computeHashAtLevel keyHash (hashLen st) of
        None \<Rightarrow> None
      | Some hp \<Rightarrow>
          let bk = \<lparr>RootKey = rootKey, Hash = hp, HashLen = hashLen st\<rparr> in
          Some (st\<lparr>rootBucketFn := Some (bucketItem h bk),
                  nextCall := True,
                  calls := calls st @ [Call_computeHashAtLevel keyHash (hashLen st),
                                       Call_bucketItem_Get bk]\<rparr>))"

text \<open>The loop \<^verbatim>\<open>for _, bucketItem := range bucket.Items\<close>, which returns at the
  first item whose key is the query key.\<close>

fun scanItems :: "('t \<Rightarrow> 'k) \<Rightarrow> 'k \<Rightarrow> 't list \<Rightarrow> 't Null \<Rightarrow> 't Null" where
  "scanItems gk key [] r = r"
| "scanItems gk key (item # rest) r =
     (let itemKey = gk item in
      if itemKey = key then \<lparr>Valid = True, Data = item\<rparr>
      else scanItems gk key rest r)"

text \<open>One run of the continuation \<^verbatim>\<open>nextCallFn\<close>. \<open>None\<close> is a run-time panic:
  calling a \<^verbatim>\<open>nil\<close> function, or a negative shift count.\<close>

definition nextCallFn ::
  "('t, 'r, 'k, 'e) Hash \<Rightarrow> 'r \<Rightarrow> 'k \<Rightarrow> u64 \<Rightarrow> ('t, 'r, 'e) getState \<Rightarrow> ('t, 'r, 'e) getState option" where
  "nextCallFn h rootKey key keyHash st =
     (case rootBucketFn st of
        None \<Rightarrow> None
      | Some (Inl e) \<Rightarrow> Some (st\<lparr>result := (result st)\<lparr>err := Some e\<rparr>\<rparr>)
      | Some (Inr bucket) \<Rightarrow>
          (case computeBitOffsetAtNextLevel keyHash (hashLen st) of
             None \<Rightarrow> None
           | Some bitOffset \<Rightarrow>
               let st1 = st\<lparr>calls := calls st @ [Call_computeBitOffsetAtNextLevel keyHash (hashLen st)]\<rparr> in
               if GetBit (Bitset bucket) bitOffset then
                 let st2 = st1\<lparr>hashLen := go_int (hashLen st1 + 1)\<rparr> in
                 if hashLen st2 \<ge> maxDeepLevels
                 then Some (st2\<lparr>result := (result st2)\<lparr>err := Some ErrHashTooDeep\<rparr>\<rparr>)
                 else doGetFn h rootKey keyHash st2
               else Some (st1\<lparr>result := (result st1)
                            \<lparr>resp := scanItems (getKey h) key (Items bucket) (resp (result st1))\<rparr>\<rparr>)))"

subsection \<open>Draining the session\<close>

text \<open>
  The number of levels that a descent at \<open>hashLen = n\<close> can still go down. It is the
  measure of the recursion below; the value for \<open>maxDeepLevels \<le> n\<close> covers the
  wrap-around of \<^verbatim>\<open>hashLen++\<close> at the largest 64-bit integer.
\<close>

definition levelsLeft :: "int \<Rightarrow> nat" where
  "levelsLeft n = (if maxDeepLevels \<le> n then 2 ^ 64 else nat (maxDeepLevels - n))"

lemma go_int_range: "- (2 ^ 63) \<le> go_int i \<and> go_int i < 2 ^ 63"
  unfolding go_int_def
  using signed_take_bit_int_greater_eq_minus_exp [of 63 i] signed_take_bit_int_less_exp [of 63 i]
  by simp

lemma go_int_id: "- (2 ^ 63) \<le> i \<Longrightarrow> i < 2 ^ 63 \<Longrightarrow> go_int i = i"
  by (simp add: go_int_def signed_take_bit_int_eq_self)

lemma levelsLeft_incr:
  assumes "go_int (n + 1) < maxDeepLevels"
  shows "levelsLeft (go_int (n + 1)) < levelsLeft n"
proof (cases "- (2 ^ 63) \<le> n + 1 \<and> n + 1 < 2 ^ 63")
  case True
  then have "go_int (n + 1) = n + 1" by (simp add: go_int_id)
  then show ?thesis using assms by (simp add: levelsLeft_def)
next
  case False
  have r: "- (2 ^ 63) \<le> go_int (n + 1)" using go_int_range by blast
  show ?thesis using False r assms by (auto simp add: levelsLeft_def maxDeepLevels_def)
qed

lemma nextCallFn_queued:
  assumes "nextCallFn h rootKey key keyHash st = Some st'" "\<not> nextCall st" "nextCall st'"
  shows "hashLen st' = go_int (hashLen st + 1) \<and> hashLen st' < maxDeepLevels"
  using assms
  by (auto simp add: nextCallFn_def doGetFn_def Let_def split: option.splits sum.splits if_splits)

text \<open>
  Modelled from the spec: \<^verbatim>\<open>h.sess.Execute()\<close> belongs to the session, which is not
  part of the package. The spec gives its contract: ``\<^verbatim>\<open>enqueue(continuation)\<close>,
  \<^verbatim>\<open>drainAll()\<close> -- drains rounds until no continuation is pending''. Here the session
  holds the continuation of this one \<^verbatim>\<open>Get\<close>: while \<^verbatim>\<open>nextCallFn\<close> is queued it is taken
  from the queue and run. The continuations of other calls on the same session do not
  touch the variables of this one: a session shared by several calls leaves each of
  them in the state reached here (lemma \<open>drainAll_Execute\<close>).
\<close>

function Execute ::
  "('t, 'r, 'k, 'e) Hash \<Rightarrow> 'r \<Rightarrow> 'k \<Rightarrow> u64 \<Rightarrow> ('t, 'r, 'e) getState \<Rightarrow> ('t, 'r, 'e) getState option" where
  "Execute h rootKey key keyHash st =
     (if nextCall st then
        (case nextCallFn h rootKey key keyHash (st\<lparr>nextCall := False\<rparr>) of
           None \<Rightarrow> None
         | Some st' \<Rightarrow> Execute h rootKey key keyHash st')
      else Some st)"
  by pat_completeness auto
termination
proof (relation "measure (\<lambda>(h, rootKey, key, keyHash, st).
    if nextCall st then Suc (levelsLeft (hashLen st)) else 0)")
  show "wf (measure (\<lambda>(h :: ('t, 'r, 'k, 'e) Hash, rootKey :: 'r, key :: 'k, keyHash :: u64,
      st :: ('t, 'r, 'e) getState). if nextCall st then Suc (levelsLeft (hashLen st)) else 0))"
    by simp
next
  fix h :: "('t, 'r, 'k, 'e) Hash" and rootKey :: 'r and key :: 'k and keyHash :: u64
    and st st' :: "('t, 'r, 'e) getState"
  assume q: "nextCall st"
    and s: "nextCallFn h rootKey key keyHash (st\<lparr>nextCall := False\<rparr>) = Some st'"
  show "((h, rootKey, key, keyHash, st'), (h, rootKey, key, keyHash, st))
        \<in> measure (\<lambda>(h, rootKey, key, keyHash, st).
            if nextCall st then Suc (levelsLeft (hashLen st)) else 0)"
  proof (cases "nextCall st'")
    case True
    from nextCallFn_queued [OF s _ True]
    have "hashLen st' = go_int (hashLen st + 1)" "hashLen st' < maxDeepLevels" by simp_all
    then show ?thesis using q True levelsLeft_incr [of "hashLen st"] by simp
  next
    case False
    then show ?thesis using q by simp
  qed
qed

declare Execute.simps [simp del]

subsection \<open>Get\<close>

text \<open>
  \<^verbatim>\<open>var result getResult[T]\<close> starts as the zero value, \<^verbatim>\<open>hashLen := 0\<close>, and
  \<^verbatim>\<open>rootBucketFn\<close> is \<^verbatim>\<open>nil\<close>.
\<close>

definition Get_init :: "'t \<Rightarrow> ('t, 'r, 'e) getState" where
  "Get_init z =
     \<lparr>hashLen = 0, rootBucketFn = None, nextCall = False,
      result = \<lparr>resp = \<lparr>Valid = False, Data = z\<rparr>, err = None\<rparr>,
      calls = []\<rparr>"

text \<open>
  \<^verbatim>\<open>Get\<close> computes the key's hash once, calls \<^verbatim>\<open>doGetFn()\<close> and returns a function;
  that function calls \<^verbatim>\<open>h.sess.Execute()\<close> and returns \<^verbatim>\<open>result.resp, result.err\<close>.
  \<open>Get_run\<close> is the state of the call's variables after the returned function has run,
  \<open>Get\<close> the pair it returns, and \<open>Get_fetches\<close> the bucket keys that were passed to the
  item accessor, in order.
\<close>

definition Get_run :: "('t, 'r, 'k, 'e) Hash \<Rightarrow> 'r \<Rightarrow> 'k \<Rightarrow> ('t, 'r, 'e) getState option" where
  "Get_run h rootKey key =
     (let keyHash = Key_Hash h key in
      case doGetFn h rootKey keyHash (Get_init (zero_T h)) of
        None \<Rightarrow> None
      | Some st \<Rightarrow> Execute h rootKey key keyHash st)"

definition Get :: "('t, 'r, 'k, 'e) Hash \<Rightarrow> 'r \<Rightarrow> 'k \<Rightarrow> ('t Null \<times> 'e error option) option" where
  "Get h rootKey key =
     map_option (\<lambda>st. (resp (result st), err (result st))) (Get_run h rootKey key)"

fun fetches :: "'r call list \<Rightarrow> 'r BucketKey list" where
  "fetches [] = []"
| "fetches (Call_bucketItem_Get k # cs) = k # fetches cs"
| "fetches (_ # cs) = fetches cs"

definition Get_fetches :: "('t, 'r, 'k, 'e) Hash \<Rightarrow> 'r \<Rightarrow> 'k \<Rightarrow> 'r BucketKey list option" where
  "Get_fetches h rootKey key = map_option (\<lambda>st. fetches (calls st)) (Get_run h rootKey key)"

section \<open>Several calls on one session\<close>

text \<open>
  The calls of \<^verbatim>\<open>Get\<close> that share a session. A registered call is the variables of
  one \<^verbatim>\<open>Get\<close> together with the root key and the query key that its closures
  captured. \<open>Get_register\<close> is the part of \<^verbatim>\<open>Get\<close> that runs before the handle is
  returned: it computes the key's hash and calls \<^verbatim>\<open>doGetFn()\<close>, which passes the root
  bucket key to the item accessor and queues \<^verbatim>\<open>nextCallFn\<close>.
\<close>

record ('t, 'r, 'k, 'e) getCall =
  rootKeyOf :: 'r
  keyOf :: 'k
  vars :: "('t, 'r, 'e) getState"

definition Get_register ::
  "('t, 'r, 'k, 'e) Hash \<Rightarrow> 'r \<Rightarrow> 'k \<Rightarrow> ('t, 'r, 'k, 'e) getCall option" where
  "Get_register h rootKey key =
     (let keyHash = Key_Hash h key in
      case doGetFn h rootKey keyHash (Get_init (zero_T h)) of
        None \<Rightarrow> None
      | Some st \<Rightarrow> Some \<lparr>rootKeyOf = rootKey, keyOf = key, vars = st\<rparr>)"

text \<open>
  Modelled from the spec: the session that runs the queued continuations is not part of
  the package. The spec says: ``Resolving the handle drains the session: each round
  executes all currently queued fetches together (enabling cross-call batching), then
  runs their continuations, which may enqueue the next round's fetches (deeper buckets)
  or finalize a result. This repeats until no continuations remain''. Running the
  continuation of a call is running its \<^verbatim>\<open>nextCallFn\<close>, when it is queued.
\<close>

definition runContinuation ::
  "('t, 'r, 'k, 'e) Hash \<Rightarrow> ('t, 'r, 'k, 'e) getCall \<Rightarrow> ('t, 'r, 'k, 'e) getCall option" where
  "runContinuation h c =
     (if nextCall (vars c) then
        (case nextCallFn h (rootKeyOf c) (keyOf c) (Key_Hash h (keyOf c))
                ((vars c)\<lparr>nextCall := False\<rparr>) of
           None \<Rightarrow> None
         | Some st \<Rightarrow> Some (c\<lparr>vars := st\<rparr>))
      else Some c)"

text \<open>
  Modelled from the spec: the continuations of one round, run in the order in which the
  calls were registered; a panic in one of them ends the program.
\<close>

fun runContinuations ::
  "('t, 'r, 'k, 'e) Hash \<Rightarrow> ('t, 'r, 'k, 'e) getCall list
     \<Rightarrow> ('t, 'r, 'k, 'e) getCall list option" where
  "runContinuations h [] = Some []"
| "runContinuations h (c # cs) =
     (case runContinuation h c of
        None \<Rightarrow> None
      | Some c' \<Rightarrow>
          (case runContinuations h cs of
             None \<Rightarrow> None
           | Some cs' \<Rightarrow> Some (c' # cs')))"

text \<open>
  Modelled from the spec: the item accessor that holds the queued fetches is not part of
  the package. The fetch that a call with a pending continuation waits for is the bucket
  key it passed to the item accessor last.
\<close>

definition queuedFetch :: "('t, 'r, 'k, 'e) getCall \<Rightarrow> 'r BucketKey list" where
  "queuedFetch c =
     (if nextCall (vars c)
      then (case rev (fetches (calls (vars c))) of [] \<Rightarrow> [] | k # _ \<Rightarrow> [k])
      else [])"

definition callWeight :: "('t, 'r, 'k, 'e) getCall \<Rightarrow> nat" where
  "callWeight c = (if nextCall (vars c) then Suc (levelsLeft (hashLen (vars c))) else 0)"

lemma runContinuation_weight:
  assumes "runContinuation h c = Some c'"
  shows "callWeight c' \<le> callWeight c \<and> (nextCall (vars c) \<longrightarrow> callWeight c' < callWeight c)"
proof (cases "nextCall (vars c)")
  case False
  then show ?thesis using assms by (auto simp add: runContinuation_def)
next
  case True
  then obtain st where st: "nextCallFn h (rootKeyOf c) (keyOf c) (Key_Hash h (keyOf c))
      ((vars c)\<lparr>nextCall := False\<rparr>) = Some st" and c': "c' = c\<lparr>vars := st\<rparr>"
    using assms by (auto simp add: runContinuation_def split: option.splits)
  show ?thesis
  proof (cases "nextCall st")
    case False
    then show ?thesis using True c' by (simp add: callWeight_def)
  next
    case q: True
    from nextCallFn_queued [OF st _ q]
    have "hashLen st = go_int (hashLen (vars c) + 1)" "hashLen st < maxDeepLevels" by simp_all
    then show ?thesis using True q c' levelsLeft_incr [of "hashLen (vars c)"]
      by (simp add: callWeight_def)
  qed
qed

lemma runContinuations_weight:
  assumes "runContinuations h cs = Some cs'"
  shows "sum_list (map callWeight cs') \<le> sum_list (map callWeight cs) \<and>
         (list_ex (\<lambda>c. nextCall (vars c)) cs \<longrightarrow>
            sum_list (map callWeight cs') < sum_list (map callWeight cs))"
  using assms
proof (induction cs arbitrary: cs')
  case Nil
  then show ?case by simp
next
  case (Cons c cs)
  then obtain c' cs1 where s: "runContinuation h c = Some c'" "runContinuations h cs = Some cs1"
    "cs' = c' # cs1"
    by (auto split: option.splits)
  show ?case using runContinuation_weight [OF s(1)] Cons.IH [OF s(2)] s(3) by auto
qed

text \<open>
  Modelled from the spec: draining the session (\<^verbatim>\<open>drainAll()\<close>, ``drains rounds until
  no continuation is pending''). The spec says: ``fetches queued for the same round
  number are batched into one backend round trip''. Each round adds one backend round
  trip, recorded as the list of the bucket keys of the fetches queued when the round
  begins, and then runs the continuations.
\<close>

function drainAll ::
  "('t, 'r, 'k, 'e) Hash \<Rightarrow> ('t, 'r, 'k, 'e) getCall list \<Rightarrow> 'r BucketKey list list
     \<Rightarrow> (('t, 'r, 'k, 'e) getCall list \<times> 'r BucketKey list list) option" where
  "drainAll h cs trips =
     (if list_ex (\<lambda>c. nextCall (vars c)) cs then
        (case runContinuations h cs of
           None \<Rightarrow> None
         | Some cs' \<Rightarrow> drainAll h cs' (trips @ [concat (map queuedFetch cs)]))
      else Some (cs, trips))"
  by pat_completeness auto
termination
proof (relation "measure (\<lambda>(h, cs, trips). sum_list (map callWeight cs))")
  show "wf (measure (\<lambda>(h :: ('t, 'r, 'k, 'e) Hash, cs :: ('t, 'r, 'k, 'e) getCall list,
      trips :: 'r BucketKey list list). sum_list (map callWeight cs)))"
    by simp
next
  fix h :: "('t, 'r, 'k, 'e) Hash" and cs cs' :: "('t, 'r, 'k, 'e) getCall list"
    and trips :: "'r BucketKey list list"
  assume "list_ex (\<lambda>c. nextCall (vars c)) cs" "runContinuations h cs = Some cs'"
  then show "((h, cs', trips @ [concat (map queuedFetch cs)]), (h, cs, trips))
      \<in> measure (\<lambda>(h, cs, trips). sum_list (map callWeight cs))"
    using runContinuations_weight [of h cs cs'] by simp
qed

declare drainAll.simps [simp del]

section \<open>Notions used in the statements\<close>

text \<open>
  The descent of a query with hash \<open>keyHash\<close> under \<open>rootKey\<close>, level by level:
  \<open>bucketKeyAt\<close> is the bucket key that \<^verbatim>\<open>doGetFn\<close> builds at \<open>hashLen = d\<close>,
  \<open>bucketAt\<close> what the item accessor yields for it, and \<open>bitAt\<close> the bit that
  \<^verbatim>\<open>nextCallFn\<close> tests in the fetched bucket (\<open>None\<close> when the fetch failed).
\<close>

definition bucketKeyAt :: "'r \<Rightarrow> u64 \<Rightarrow> int \<Rightarrow> 'r BucketKey option" where
  "bucketKeyAt rootKey keyHash d =
     map_option (\<lambda>hp. \<lparr>RootKey = rootKey, Hash = hp, HashLen = d\<rparr>) (computeHashAtLevel keyHash d)"

definition bucketAt ::
  "('t, 'r, 'k, 'e) Hash \<Rightarrow> 'r \<Rightarrow> u64 \<Rightarrow> int \<Rightarrow> ('e error + 't Bucket) option" where
  "bucketAt h rootKey keyHash d = map_option (bucketItem h) (bucketKeyAt rootKey keyHash d)"

definition bitAt :: "('t, 'r, 'k, 'e) Hash \<Rightarrow> 'r \<Rightarrow> u64 \<Rightarrow> int \<Rightarrow> bool option" where
  "bitAt h rootKey keyHash d =
     (case bucketAt h rootKey keyHash d of
        Some (Inr bucket) \<Rightarrow>
          map_option (GetBit (Bitset bucket)) (computeBitOffsetAtNextLevel keyHash d)
      | _ \<Rightarrow> None)"

text \<open>
  A recorded call is in range when its \<open>hashLen\<close> lies in \<open>[0, 4]\<close> and the shift count
  computed from it is not negative; a fetched bucket key, when \<open>0 \<le> HashLen \<le> 4\<close> and
  every byte of \<open>Hash\<close> below the top \<open>HashLen\<close> bytes is zero.
\<close>

fun callInRange :: "'r call \<Rightarrow> bool" where
  "callInRange (Call_computeHashAtLevel hash n) =
     (0 \<le> n \<and> n \<le> 4 \<and> 0 \<le> go_int (64 - go_int (8 * n)))"
| "callInRange (Call_computeBitOffsetAtNextLevel hash n) =
     (0 \<le> n \<and> n \<le> 4 \<and> 0 \<le> go_int (go_int (64 - 8) - go_int (n * 8)))"
| "callInRange (Call_bucketItem_Get k) =
     (0 \<le> HashLen k \<and> HashLen k \<le> 4 \<and>
      drop (nat (HashLen k)) (PutUint64 (Hash k)) = replicate (8 - nat (HashLen k)) 0)"

text \<open>
  The big-endian encoding and the hexadecimal encoding as the specification words them,
  by division and remainder: byte \<open>i\<close> of the eight bytes of \<open>h\<close> is
  \<open>h div 256 ^ (7 - i) mod 256\<close>, and a byte is written as its two hexadecimal digits,
  the high one first.
\<close>

definition bigEndian_spec :: "u64 \<Rightarrow> nat list" where
  "bigEndian_spec h = map (\<lambda>i. (unat h div 256 ^ (7 - i)) mod 256) [0..<8]"

definition hexDigit_spec :: "nat \<Rightarrow> char" where
  "hexDigit_spec n = ''0123456789abcdef'' ! n"

definition hex_spec :: "nat list \<Rightarrow> string" where
  "hex_spec bs = concat (map (\<lambda>b. [hexDigit_spec (b div 16), hexDigit_spec (b mod 16)]) bs)"

section \<open>Notions used in the proofs\<close>

definition byteAt :: "nat \<Rightarrow> u64 \<Rightarrow> byte" where
  "byteAt k h = ucast (drop_bit k h)"

text \<open>The state of a call whose descent has reached depth \<open>d\<close> and whose continuation
  is pending.\<close>

definition descended ::
  "('t, 'r, 'k, 'e) Hash \<Rightarrow> 'r \<Rightarrow> u64 \<Rightarrow> int \<Rightarrow> ('t, 'r, 'e) getState \<Rightarrow> bool" where
  "descended h rk kh d st \<longleftrightarrow>
     hashLen st = d \<and> nextCall st \<and> rootBucketFn st \<noteq> None \<and>
     rootBucketFn st = bucketAt h rk kh d \<and>
     result st = \<lparr>resp = \<lparr>Valid = False, Data = zero_T h\<rparr>, err = None\<rparr> \<and>
     map Some (fetches (calls st)) = map (bucketKeyAt rk kh) [0..d]"

text \<open>The invariant of the variables of a call.\<close>

definition getInv :: "('t, 'r, 'k, 'e) Hash \<Rightarrow> ('t, 'r, 'e) getState \<Rightarrow> bool" where
  "getInv h st \<longleftrightarrow>
     0 \<le> hashLen st \<and> hashLen st \<le> maxDeepLevels \<and>
     list_all callInRange (calls st) \<and>
     (if nextCall st
      then hashLen st < maxDeepLevels \<and> rootBucketFn st \<noteq> None \<and>
           result st = \<lparr>resp = \<lparr>Valid = False, Data = zero_T h\<rparr>, err = None\<rparr>
      else (err (result st) = None \<or> resp (result st) = \<lparr>Valid = False, Data = zero_T h\<rparr>) \<and>
           (hashLen st < maxDeepLevels \<or> err (result st) = Some ErrHashTooDeep))"

section \<open>A small index for the examples\<close>

text \<open>
  The root bucket holds one item and has the bits \<open>0x12\<close> and \<open>0x13\<close> set; the bucket
  at depth 1 under the byte \<open>0x12\<close> holds three items, two of them with the key 7; every
  other fetch fails. In \<open>deepHash\<close> every bucket has every bit set.
\<close>

definition demoRootBitset :: BitSet where
  "demoRootBitset = (replicate 32 0)[2 := 12]"

definition demoBackend :: "string BucketKey \<Rightarrow> string error + (nat \<times> string) Bucket" where
  "demoBackend k =
     (if HashLen k = 0 then Inr \<lparr>Items = [(1, ''a'')], Bitset = demoRootBitset\<rparr>
      else if HashLen k = 1 \<and> Hash k = 0x1200000000000000
      then Inr \<lparr>Items = [(5, ''x''), (7, ''b''), (7, ''c'')], Bitset = replicate 32 0\<rparr>
      else Inl (BackendError ''down''))"

definition demoKeyHash :: "nat \<Rightarrow> u64" where
  "demoKeyHash k =
     (if k = 7 then 0x1234000000000000
      else if k = 8 then 0x1300000000000000
      else 0x2000000000000000)"

definition demoHash :: "(nat \<times> string, string, nat, string) Hash" where
  "demoHash =
     \<lparr>getKey = fst, bucketItem = demoBackend, Key_Hash = demoKeyHash, zero_T = (0, '''')\<rparr>"

definition deepHash :: "(nat \<times> string, string, nat, string) Hash" where
  "deepHash =
     \<lparr>getKey = fst,
      bucketItem = (\<lambda>k. Inr \<lparr>Items = [(7, ''b'')], Bitset = replicate 32 0xff\<rparr>),
      Key_Hash = demoKeyHash, zero_T = (0, '''')\<rparr>"

section \<open>Shift counts and masks\<close>

lemma shl_count: "0 \<le> d \<Longrightarrow> d \<le> 8 \<Longrightarrow> go_int (64 - go_int (8 * d)) = 64 - 8 * d"
  by (simp add: go_int_id)

lemma shr_count: "0 \<le> d \<Longrightarrow> d < 8 \<Longrightarrow> go_int (go_int 56 - go_int (d * 8)) = 56 - 8 * d"
  by (simp add: go_int_id)

lemma computeHashAtLevel_Some:
  "0 \<le> d \<Longrightarrow> d \<le> 8 \<Longrightarrow> \<exists>hp. computeHashAtLevel kh d = Some hp"
  by (simp add: computeHashAtLevel_def shl_u64_def shl_count)

lemma computeBitOffsetAtNextLevel_Some:
  "0 \<le> d \<Longrightarrow> d < 8 \<Longrightarrow> \<exists>off. computeBitOffsetAtNextLevel kh d = Some off"
  by (simp add: computeBitOffsetAtNextLevel_def shr_u64_def shr_count)

lemma computeHashAtLevel_mask:
  assumes "0 \<le> d" "d \<le> 8"
  shows "computeHashAtLevel h d = Some (h AND NOT (mask (64 - 8 * nat d)))"
proof -
  have n: "nat (64 - 8 * d) = 64 - 8 * nat d" using assms by simp
  have "push_bit (64 - 8 * nat d) (- 1 :: u64) = NOT (mask (64 - 8 * nat d))"
    by (rule bit_word_eqI) (auto simp add: bit_simps)
  then show ?thesis using assms
    by (simp add: computeHashAtLevel_def shl_u64_def shl_count MaxUint64_def n)
qed

lemma mask_all_bits: "(h :: u64) AND NOT (mask 64) = 0"
  by (rule bit_word_eqI) (simp add: bit_simps)

lemma and_ff: "(w :: u64) AND 0xff = take_bit 8 w"
proof -
  have "(0xff :: u64) = mask 8" by (simp add: mask_eq_exp_minus_1)
  then show ?thesis by (simp add: take_bit_eq_mask)
qed

lemma byte_of_shift: "unat (take_bit 8 (drop_bit k (h :: u64))) = (unat h div 2 ^ k) mod 256"
  unfolding unsigned_take_bit_eq unat_drop_bit_eq
  by (simp add: take_bit_eq_mod drop_bit_eq_div)

lemma computeBitOffsetAtNextLevel_value:
  assumes "0 \<le> d" "d < 8"
  shows "computeBitOffsetAtNextLevel h d = Some (int ((unat h div 2 ^ (56 - 8 * nat d)) mod 256))"
proof -
  have n: "nat (56 - 8 * d) = 56 - 8 * nat d" using assms by simp
  have u: "uint (take_bit 8 (drop_bit k h)) = int ((unat h div 2 ^ k) mod 256)" for k
    by (simp only: uint_nat byte_of_shift)
  have "go_int (int ((unat h div 2 ^ k) mod 256)) = int ((unat h div 2 ^ k) mod 256)" for k
    by (rule go_int_id) simp_all
  then show ?thesis using assms
    by (simp add: computeBitOffsetAtNextLevel_def shr_u64_def shr_count and_ff n u
        del: take_bit_eq_mod drop_bit_eq_div)
qed


section \<open>The bytes of a hash\<close>

lemma length_PutUint64: "length (PutUint64 v) = 8"
  by (simp add: PutUint64_def)

lemma PutUint64_byteAt:
  "PutUint64 v = [byteAt 56 v, byteAt 48 v, byteAt 40 v, byteAt 32 v, byteAt 24 v, byteAt 16 v,
     byteAt 8 v, byteAt 0 v]"
  by (simp add: PutUint64_def byteAt_def)

lemma byteAt_masked_keep: "m \<le> k \<Longrightarrow> byteAt k (h AND NOT (mask m)) = byteAt k h"
  unfolding byteAt_def
  by (rule bit_word_eqI) (auto simp add: bit_simps dest: bit_imp_le_length)

lemma byteAt_masked_zero: "k + 8 \<le> m \<Longrightarrow> byteAt k (h AND NOT (mask m)) = 0"
  unfolding byteAt_def
  by (rule bit_word_eqI) (auto simp add: bit_simps)

lemma unat_byteAt: "unat (byteAt k h) = (unat h div 2 ^ k) mod 256"
  unfolding byteAt_def unsigned_ucast_eq unat_drop_bit_eq
  by (simp add: take_bit_eq_mod drop_bit_eq_div)

lemma replicate_bytes:
  "replicate 8 x = [x, x, x, x, x, x, x, x]" "replicate 7 x = [x, x, x, x, x, x, x]"
  "replicate 6 x = [x, x, x, x, x, x]" "replicate 5 x = [x, x, x, x, x]"
  "replicate 4 x = [x, x, x, x]" "replicate 3 x = [x, x, x]"
  "replicate 2 x = [x, x]"
  by (simp_all add: numeral_eq_Suc)

lemma PutUint64_masked:
  assumes "n \<le> 8"
  shows "PutUint64 (h AND NOT (mask (64 - 8 * n))) = take n (PutUint64 h) @ replicate (8 - n) 0"
proof -
  have "n \<in> {0, 1, 2, 3, 4, 5, 6, 7, 8}"
    using assms by auto
  then show ?thesis
    by (elim insertE emptyE)
      (simp_all add: PutUint64_byteAt byteAt_masked_keep byteAt_masked_zero replicate_bytes)
qed

lemma PutUint64_nth:
  assumes "n < 8"
  shows "unat (PutUint64 h ! n) = (unat h div 2 ^ (56 - 8 * n)) mod 256"
proof -
  have "n \<in> {0, 1, 2, 3, 4, 5, 6, 7}"
    using assms by auto
  then show ?thesis
    by (elim insertE emptyE) (simp_all add: PutUint64_byteAt unat_byteAt)
qed

lemma unat_PutUint64: "map unat (PutUint64 h) = bigEndian_spec h"
  by (simp add: PutUint64_byteAt bigEndian_spec_def upt_rec unat_byteAt)

lemma bigEndian_spec_nth:
  assumes "n < 8"
  shows "bigEndian_spec h ! n = unat (PutUint64 h ! n)"
proof -
  have "bigEndian_spec h ! n = map unat (PutUint64 h) ! n" by (simp only: unat_PutUint64)
  then show ?thesis using assms by (simp add: length_PutUint64)
qed

section \<open>Hexadecimal digits\<close>

lemma nib_hi: "unat (drop_bit 4 (v :: byte)) = unat v div 16"
  unfolding unat_drop_bit_eq by (simp add: drop_bit_eq_div)

lemma nib_lo: "unat ((v :: byte) AND 0x0f) = unat v mod 16"
proof -
  have "(0x0f :: byte) = mask 4" by (simp add: mask_eq_exp_minus_1)
  then have "v AND 0x0f = take_bit 4 v" by (simp add: take_bit_eq_mask)
  then show ?thesis by (simp only: unsigned_take_bit_eq) (simp add: take_bit_eq_mod)
qed

lemma EncodeToString_hex_spec: "EncodeToString bs = hex_spec (map unat bs)"
  by (induction bs) (simp_all add: hex_spec_def hexDigit_spec_def hextable_def nib_hi nib_lo)

lemma length_EncodeToString: "length (EncodeToString bs) = 2 * length bs"
  by (induction bs) simp_all

section \<open>The hash prefix at a depth\<close>

text \<open>
  Claim C4. For every 64-bit hash and every depth in \<open>[0, maxDeepLevels)\<close>,
  \<^verbatim>\<open>computeHashAtLevel(hash, depth)\<close> returns the hash with only its top \<open>depth\<close> bytes
  retained: bit \<open>n\<close> of the result is bit \<open>n\<close> of the hash when it is one of the top
  \<open>8 * depth\<close> bits and is cleared otherwise; the result is the hash masked to these
  bits; its big-endian bytes are the first \<open>depth\<close> bytes of the hash followed by zero
  bytes. At depth 0 the result is 0 for every hash.
\<close>

theorem computeHashAtLevel_retains_top_bytes:
  assumes "0 \<le> depth" "depth < maxDeepLevels"
  shows "(\<exists>r. computeHashAtLevel hash depth = Some r \<and>
              (\<forall>n. bit r n = (bit hash n \<and> 64 - 8 * nat depth \<le> n)) \<and>
              r = hash AND NOT (mask (64 - 8 * nat depth)) \<and>
              PutUint64 r = take (nat depth) (PutUint64 hash) @ replicate (8 - nat depth) 0) \<and>
         computeHashAtLevel hash 0 = Some 0"
proof -
  have d: "depth \<le> 8" "nat depth \<le> 8" using assms by (simp_all add: maxDeepLevels_def)
  have r: "computeHashAtLevel hash depth = Some (hash AND NOT (mask (64 - 8 * nat depth)))"
    using assms(1) d(1) by (rule computeHashAtLevel_mask)
  have b: "bit (hash AND NOT (mask (64 - 8 * nat depth))) n
             = (bit hash n \<and> 64 - 8 * nat depth \<le> n)" for n
    by (auto simp add: bit_simps dest: bit_imp_le_length)
  have z: "computeHashAtLevel hash 0 = Some 0"
    using computeHashAtLevel_mask [of 0 hash] by (simp add: mask_all_bits)
  show ?thesis using r b z PutUint64_masked [OF d(2), of hash] by simp
qed

theorem computeHashAtLevel_retains_top_bytes_witness:
  "(0 :: int) \<le> 3 \<and> 3 < maxDeepLevels \<and>
   computeHashAtLevel 0x1122334455667788 3 = Some 0x1122330000000000 \<and>
   PutUint64 0x1122330000000000 = [0x11, 0x22, 0x33, 0, 0, 0, 0, 0] \<and>
   computeHashAtLevel 0x1122334455667788 0 = Some 0"
proof -
  have h1: "(0 :: int) \<le> 3" by simp
  have h2: "(3 :: int) < maxDeepLevels" by (simp add: maxDeepLevels_def)
  have e: "(0x1122334455667788 :: u64) AND NOT (mask (64 - 8 * nat 3)) = 0x1122330000000000"
    by code_simp
  have p: "take (nat 3) (PutUint64 0x1122334455667788) @ replicate (8 - nat 3) 0
             = [0x11, 0x22, 0x33, 0, 0, 0, 0, 0]"
    by code_simp
  from computeHashAtLevel_retains_top_bytes [OF h1 h2, of "0x1122334455667788"]
  show ?thesis using h1 h2 unfolding e p by auto
qed

section \<open>The byte that selects the branch\<close>

text \<open>
  Claim C5. For every 64-bit hash and every depth in \<open>[0, maxDeepLevels)\<close>,
  \<^verbatim>\<open>computeBitOffsetAtNextLevel(hash, depth)\<close> returns an integer in \<open>[0, 255]\<close>, and it
  is the byte at offset \<open>depth\<close> of the big-endian encoding of the hash: of the encoding
  that \<^verbatim>\<open>PutUint64\<close> writes, and of the one defined by division and remainder.
\<close>

theorem computeBitOffsetAtNextLevel_is_big_endian_byte:
  assumes "0 \<le> depth" "depth < maxDeepLevels"
  shows "\<exists>off. computeBitOffsetAtNextLevel hash depth = Some off \<and> 0 \<le> off \<and> off \<le> 255 \<and>
               off = uint (PutUint64 hash ! nat depth) \<and>
               off = int (bigEndian_spec hash ! nat depth)"
proof -
  have d: "depth < 8" "nat depth < 8" using assms by (simp_all add: maxDeepLevels_def)
  let ?v = "(unat hash div 2 ^ (56 - 8 * nat depth)) mod 256"
  have v: "computeBitOffsetAtNextLevel hash depth = Some (int ?v)"
    using assms(1) d(1) by (rule computeBitOffsetAtNextLevel_value)
  have p: "unat (PutUint64 hash ! nat depth) = ?v"
    using d(2) by (rule PutUint64_nth)
  have s: "bigEndian_spec hash ! nat depth = ?v"
    using bigEndian_spec_nth [OF d(2), of hash] p by simp
  have "?v < 256" by simp
  then have "int ?v \<le> 255" by linarith
  then show ?thesis using v p s by (simp add: uint_nat)
qed

theorem computeBitOffsetAtNextLevel_is_big_endian_byte_witness:
  "(0 :: int) \<le> 3 \<and> 3 < maxDeepLevels \<and>
   computeBitOffsetAtNextLevel 0x1122334455667788 3 = Some 0x44 \<and>
   bigEndian_spec 0x1122334455667788 ! 3 = 0x44"
proof -
  have h1: "(0 :: int) \<le> 3" by simp
  have h2: "(3 :: int) < maxDeepLevels" by (simp add: maxDeepLevels_def)
  have e: "bigEndian_spec 0x1122334455667788 ! nat 3 = 0x44"
    by (simp add: bigEndian_spec_def upt_rec)
  from computeBitOffsetAtNextLevel_is_big_endian_byte [OF h1 h2, of "0x1122334455667788"]
  show ?thesis using h1 h2 e by auto
qed

section \<open>The branch byte is the next byte of the child's prefix\<close>

text \<open>
  Claim C6. For every 64-bit hash and every depth in \<open>[0, maxDeepLevels - 1)\<close>, the byte
  used for the bitset test at that depth is the byte embedded in the hash prefix of the
  child key: \<^verbatim>\<open>computeHashAtLevel(hash, depth+1)\<close> is \<^verbatim>\<open>computeHashAtLevel(hash, depth)\<close>
  plus \<^verbatim>\<open>computeBitOffsetAtNextLevel(hash, depth)\<close> shifted left by \<open>64 - 8 * (depth + 1)\<close>,
  and the byte at offset \<open>depth\<close> of the child's prefix is that offset.
\<close>

theorem child_prefix_embeds_offset_byte:
  assumes "0 \<le> depth" "depth < maxDeepLevels - 1"
  shows "\<exists>child parent off.
           computeHashAtLevel hash (depth + 1) = Some child \<and>
           computeHashAtLevel hash depth = Some parent \<and>
           computeBitOffsetAtNextLevel hash depth = Some off \<and>
           child = parent + push_bit (nat (64 - 8 * (depth + 1))) (word_of_int off) \<and>
           off = uint (PutUint64 child ! nat depth)"
proof -
  have d: "depth \<le> 8" "depth + 1 \<le> 8" "depth < 8" "0 \<le> depth + 1" "nat depth < 8"
    using assms by (simp_all add: maxDeepLevels_def)
  let ?n = "nat depth"
  let ?off = "int ((unat hash div 2 ^ (56 - 8 * ?n)) mod 256)"
  have m: "64 - 8 * nat (depth + 1) = 56 - 8 * ?n" using assms(1) by simp
  have c: "computeHashAtLevel hash (depth + 1) = Some (hash AND NOT (mask (56 - 8 * ?n)))"
    using computeHashAtLevel_mask [OF d(4) d(2), of hash] by (simp only: m)
  have p: "computeHashAtLevel hash depth = Some (hash AND NOT (mask (64 - 8 * ?n)))"
    using assms(1) d(1) by (rule computeHashAtLevel_mask)
  have v: "computeBitOffsetAtNextLevel hash depth = Some ?off"
    using assms(1) d(3) by (rule computeBitOffsetAtNextLevel_value)
  have n1: "nat (64 - 8 * (depth + 1)) = 56 - 8 * ?n"
    using assms(1) d by simp
  let ?x = "take_bit 8 (drop_bit (56 - 8 * ?n) hash)"
  have "?off = int (unat ?x)" by (simp only: byte_of_shift)
  then have w: "(word_of_int ?off :: u64) = ?x" by simp
  have disj: "(hash AND NOT (mask (64 - 8 * ?n))) AND push_bit (56 - 8 * ?n) ?x = 0"
    using d(5) by (intro bit_word_eqI) (auto simp add: bit_simps)
  have sum: "hash AND NOT (mask (56 - 8 * ?n)) =
             (hash AND NOT (mask (64 - 8 * ?n))) OR push_bit (56 - 8 * ?n) ?x"
    using d(5) by (intro bit_word_eqI) (auto simp add: bit_simps)
  have plus: "(hash AND NOT (mask (64 - 8 * ?n))) + push_bit (56 - 8 * ?n) ?x =
              (hash AND NOT (mask (64 - 8 * ?n))) OR push_bit (56 - 8 * ?n) ?x"
    using disj by (simp add: disjunctive_add_eq_or)
  have e: "Suc ?n \<le> 8" using d(5) by simp
  have byte: "PutUint64 (hash AND NOT (mask (56 - 8 * ?n))) ! ?n = PutUint64 hash ! ?n"
    using PutUint64_masked [OF e, of hash] d(5) by (simp add: nth_append length_PutUint64)
  have o: "?off = uint (PutUint64 hash ! ?n)"
    using PutUint64_nth [OF d(5), of hash] by (simp add: uint_nat)
  have child: "hash AND NOT (mask (56 - 8 * ?n)) =
      (hash AND NOT (mask (64 - 8 * ?n))) + push_bit (nat (64 - 8 * (depth + 1))) (word_of_int ?off)"
    by (simp only: n1 w plus sum)
  have off: "?off = uint (PutUint64 (hash AND NOT (mask (56 - 8 * ?n))) ! ?n)"
    by (simp only: byte o)
  show ?thesis using c p v child off by blast
qed

theorem child_prefix_embeds_offset_byte_witness:
  "(0 :: int) \<le> 1 \<and> 1 < maxDeepLevels - 1 \<and>
   computeHashAtLevel 0x1122334455667788 2 = Some 0x1122000000000000 \<and>
   computeHashAtLevel 0x1122334455667788 1 = Some 0x1100000000000000 \<and>
   computeBitOffsetAtNextLevel 0x1122334455667788 1 = Some 0x22 \<and>
   (0x1122000000000000 :: u64) = 0x1100000000000000 + push_bit 48 0x22"
proof -
  have h1: "(0 :: int) \<le> 1" by simp
  have h2: "(1 :: int) < maxDeepLevels - 1" by (simp add: maxDeepLevels_def)
  have c: "computeHashAtLevel 0x1122334455667788 (1 + 1) = Some 0x1122000000000000"
    by code_simp
  have p: "computeHashAtLevel 0x1122334455667788 1 = Some 0x1100000000000000"
    by code_simp
  have v: "computeBitOffsetAtNextLevel 0x1122334455667788 1 = Some 0x22"
    by code_simp
  from child_prefix_embeds_offset_byte [OF h1 h2, of "0x1122334455667788"]
  have "(0x1122000000000000 :: u64)
          = 0x1100000000000000 + push_bit (nat (64 - 8 * (1 + 1))) (word_of_int 0x22)"
    unfolding c p v by simp
  then show ?thesis using h1 h2 c p v by simp
qed

section \<open>The cache key of a bucket\<close>

text \<open>
  Claim C7. For every bucket key with \<open>HashLen\<close> in \<open>[0, maxDeepLevels)\<close>,
  \<^verbatim>\<open>BucketKey.String()\<close> is \<^verbatim>\<open>RootKey.String()\<close>, then a colon, then the hexadecimal
  encoding of the first \<open>HashLen\<close> bytes of the big-endian encoding of \<open>Hash\<close>; at
  \<open>HashLen = 0\<close> it is \<^verbatim>\<open>RootKey.String()\<close> followed by a colon.
\<close>

theorem BucketKey_String_is_root_colon_hex:
  assumes "0 \<le> HashLen k" "HashLen k < maxDeepLevels"
  shows "BucketKey_String RootKey_String k =
           Some (RootKey_String (RootKey k) @ '':'' @
                 hex_spec (take (nat (HashLen k)) (bigEndian_spec (Hash k)))) \<and>
         BucketKey_String RootKey_String (k\<lparr>HashLen := 0\<rparr>) =
           Some (RootKey_String (RootKey k) @ '':'')"
proof -
  have "HashLen k \<le> 8" using assms by (simp add: maxDeepLevels_def)
  moreover have "EncodeToString (take n (PutUint64 h)) = hex_spec (take n (bigEndian_spec h))"
    for n h
    by (simp add: EncodeToString_hex_spec take_map flip: unat_PutUint64)
  ultimately show ?thesis using assms(1)
    by (simp add: BucketKey_String_def Let_def)
qed

theorem BucketKey_String_is_root_colon_hex_witness:
  "BucketKey_String id \<lparr>RootKey = ''root'', Hash = 0x11ab000000000000, HashLen = 2\<rparr>
     = Some ''root:11ab'' \<and>
   BucketKey_String id \<lparr>RootKey = ''root'', Hash = 0x11ab000000000000, HashLen = 0\<rparr>
     = Some ''root:''"
proof -
  let ?k = "\<lparr>RootKey = ''root'', Hash = 0x11ab000000000000, HashLen = 2\<rparr>"
  have h1: "0 \<le> HashLen ?k" by simp
  have h2: "HashLen ?k < maxDeepLevels" by (simp add: maxDeepLevels_def)
  have e: "hex_spec (take (nat 2) (bigEndian_spec 0x11ab000000000000)) = ''11ab''"
    by (simp add: hex_spec_def hexDigit_spec_def bigEndian_spec_def upt_rec)
  from BucketKey_String_is_root_colon_hex [OF h1 h2, of id]
  show ?thesis using e by simp
qed

text \<open>
  Claim C8. For every root key and every two bucket keys with the same \<open>RootKey\<close> but
  distinct \<open>HashLen\<close> values, both in \<open>[0, maxDeepLevels)\<close>, the rendered cache-key
  strings are distinct; in particular no depth-0 key renders as a depth-1 key of the
  same root does.
\<close>

theorem BucketKey_String_distinct_depths:
  assumes "RootKey k1 = RootKey k2" "HashLen k1 \<noteq> HashLen k2"
    and "0 \<le> HashLen k1" "HashLen k1 < maxDeepLevels"
    and "0 \<le> HashLen k2" "HashLen k2 < maxDeepLevels"
  shows "\<exists>s1 s2. BucketKey_String RootKey_String k1 = Some s1 \<and>
                 BucketKey_String RootKey_String k2 = Some s2 \<and> s1 \<noteq> s2"
proof -
  let ?r = "RootKey_String (RootKey k1)"
  let ?s1 = "?r @ '':'' @ EncodeToString (take (nat (HashLen k1)) (PutUint64 (Hash k1)))"
  let ?s2 = "?r @ '':'' @ EncodeToString (take (nat (HashLen k2)) (PutUint64 (Hash k2)))"
  have b: "HashLen k1 \<le> 8" "HashLen k2 \<le> 8" using assms by (simp_all add: maxDeepLevels_def)
  have s1: "BucketKey_String RootKey_String k1 = Some ?s1"
    using assms(3) b(1) by (simp add: BucketKey_String_def Let_def)
  have s2: "BucketKey_String RootKey_String k2 = Some ?s2"
    using assms(1,5) b(2) by (simp add: BucketKey_String_def Let_def)
  have l1: "length ?s1 = length ?r + 1 + 2 * nat (HashLen k1)"
    using assms(3) b(1) by (simp add: length_EncodeToString length_PutUint64)
  have l2: "length ?s2 = length ?r + 1 + 2 * nat (HashLen k2)"
    using assms(5) b(2) by (simp add: length_EncodeToString length_PutUint64)
  have "nat (HashLen k1) \<noteq> nat (HashLen k2)" using assms(2,3,5) by simp
  then have "length ?s1 \<noteq> length ?s2" unfolding l1 l2 by simp
  then have "?s1 \<noteq> ?s2" by metis
  then show ?thesis using s1 s2 by blast
qed

theorem BucketKey_String_distinct_depths_witness:
  "BucketKey_String id \<lparr>RootKey = ''root'', Hash = 0, HashLen = 0\<rparr> = Some ''root:'' \<and>
   BucketKey_String id \<lparr>RootKey = ''root'', Hash = 0x1200000000000000, HashLen = 1\<rparr>
     = Some ''root:12'' \<and>
   BucketKey_String id \<lparr>RootKey = ''root'', Hash = 0, HashLen = 0\<rparr>
     \<noteq> BucketKey_String id \<lparr>RootKey = ''root'', Hash = 0x1200000000000000, HashLen = 1\<rparr>"
proof -
  let ?k1 = "\<lparr>RootKey = ''root'', Hash = 0, HashLen = 0\<rparr>"
  let ?k2 = "\<lparr>RootKey = ''root'', Hash = 0x1200000000000000, HashLen = 1\<rparr>"
  have a: "BucketKey_String id ?k1 = Some ''root:''" by code_simp
  have b: "BucketKey_String id ?k2 = Some ''root:12''" by code_simp
  have "\<exists>s1 s2. BucketKey_String id ?k1 = Some s1 \<and> BucketKey_String id ?k2 = Some s2 \<and> s1 \<noteq> s2"
    by (rule BucketKey_String_distinct_depths) (simp_all add: maxDeepLevels_def)
  then have "BucketKey_String id ?k1 \<noteq> BucketKey_String id ?k2" by auto
  then show ?thesis using a b by simp
qed

section \<open>One round of a descent\<close>

lemma Execute_queued:
  "nextCall st \<Longrightarrow> nextCallFn h rk key kh (st\<lparr>nextCall := False\<rparr>) = Some st'
     \<Longrightarrow> Execute h rk key kh st = Execute h rk key kh st'"
  by (subst Execute.simps) simp

lemma Execute_idle: "\<not> nextCall st \<Longrightarrow> Execute h rk key kh st = Some st"
  by (subst Execute.simps) simp

lemma fetches_append: "fetches (xs @ ys) = fetches xs @ fetches ys"
  by (induction xs rule: fetches.induct) simp_all

lemma scanItems_find:
  "scanItems gk key xs r =
     (case find (\<lambda>item. gk item = key) xs of
        None \<Rightarrow> r
      | Some item \<Rightarrow> \<lparr>Valid = True, Data = item\<rparr>)"
  by (induction xs) (simp_all add: Let_def)

lemma bucketKeyAt_root: "bucketKeyAt rk kh 0 = Some \<lparr>RootKey = rk, Hash = 0, HashLen = 0\<rparr>"
  using computeHashAtLevel_mask [of 0 kh] by (simp add: bucketKeyAt_def mask_all_bits)

lemma fetched_depths:
  "map Some fs = map (bucketKeyAt rk kh) ds \<Longrightarrow> map HashLen fs = ds"
proof (induction ds arbitrary: fs)
  case Nil
  then show ?case by simp
next
  case (Cons d ds)
  then obtain k ks where fs: "fs = k # ks" by (cases fs) auto
  with Cons.prems have "bucketKeyAt rk kh d = Some k" "map Some ks = map (bucketKeyAt rk kh) ds"
    by simp_all
  then show ?case using Cons.IH [of ks] fs by (auto simp add: bucketKeyAt_def)
qed

lemma descended_root:
  "\<exists>st. doGetFn h rk kh (Get_init (zero_T h)) = Some st \<and> descended h rk kh 0 st"
proof -
  obtain hp where hp: "computeHashAtLevel kh 0 = Some hp"
    using computeHashAtLevel_Some [of 0 kh] by auto
  then show ?thesis
    by (simp add: doGetFn_def Get_init_def descended_def bucketAt_def bucketKeyAt_def Let_def)
qed

lemma descended_step:
  assumes d: "descended h rk kh d st" and r: "0 \<le> d" "d + 1 < maxDeepLevels"
    and b: "bitAt h rk kh d = Some True"
  shows "\<exists>st'. nextCallFn h rk key kh (st\<lparr>nextCall := False\<rparr>) = Some st' \<and>
               descended h rk kh (d + 1) st'"
proof -
  from b obtain bucket off where
    bu: "bucketAt h rk kh d = Some (Inr bucket)" and
    off: "computeBitOffsetAtNextLevel kh d = Some off" and
    bit: "GetBit (Bitset bucket) off"
    by (auto simp add: bitAt_def split: option.splits sum.splits)
  obtain hp where hp: "computeHashAtLevel kh (d + 1) = Some hp"
    using computeHashAtLevel_Some [of "d + 1" kh] r by (auto simp add: maxDeepLevels_def)
  have g: "go_int (d + 1) = d + 1"
    using r by (simp add: go_int_id maxDeepLevels_def)
  have u: "[0..d + 1] = [0..d] @ [d + 1]"
    using r upto_rec2 [of 0 "d + 1"] by simp
  from d have s: "hashLen st = d" "rootBucketFn st = Some (Inr bucket)"
    "result st = \<lparr>resp = \<lparr>Valid = False, Data = zero_T h\<rparr>, err = None\<rparr>"
    "map Some (fetches (calls st)) = map (bucketKeyAt rk kh) [0..d]"
    using bu by (simp_all add: descended_def)
  show ?thesis
    using r bit
    by (simp add: nextCallFn_def doGetFn_def s off g hp Let_def descended_def bucketAt_def
        bucketKeyAt_def fetches_append u)
qed

text \<open>While the bit is set at every depth below \<open>n\<close>, the descent reaches depth \<open>n\<close>.\<close>

lemma descend_to:
  assumes "int n < maxDeepLevels"
    and "\<forall>j\<in>{0..<int n}. bitAt h rk (Key_Hash h key) j = Some True"
  shows "\<exists>st. Get_run h rk key = Execute h rk key (Key_Hash h key) st \<and>
              descended h rk (Key_Hash h key) (int n) st"
  using assms
proof (induction n)
  case 0
  obtain st where "doGetFn h rk (Key_Hash h key) (Get_init (zero_T h)) = Some st"
    "descended h rk (Key_Hash h key) 0 st"
    using descended_root [of h rk "Key_Hash h key"] by auto
  then show ?case by (auto simp add: Get_run_def Let_def)
next
  case (Suc n)
  then obtain st where st: "Get_run h rk key = Execute h rk key (Key_Hash h key) st"
    "descended h rk (Key_Hash h key) (int n) st"
    by auto
  have b: "bitAt h rk (Key_Hash h key) (int n) = Some True"
    using Suc.prems by simp
  obtain st' where st':
    "nextCallFn h rk key (Key_Hash h key) (st\<lparr>nextCall := False\<rparr>) = Some st'"
    "descended h rk (Key_Hash h key) (int n + 1) st'"
    using descended_step [OF st(2) _ _ b] Suc.prems(1) by auto
  have "nextCall st" using st(2) by (simp add: descended_def)
  then have "Execute h rk key (Key_Hash h key) st = Execute h rk key (Key_Hash h key) st'"
    using st'(1) by (rule Execute_queued)
  then show ?case using st st' by (auto simp add: add.commute)
qed

section \<open>The last round of a descent\<close>

lemma terminal_scan:
  assumes d: "descended h rk kh d st" and r: "0 \<le> d" "d < maxDeepLevels"
    and bu: "bucketAt h rk kh d = Some (Inr bucket)"
    and b: "bitAt h rk kh d = Some False"
  shows "\<exists>st'. Execute h rk key kh st = Some st' \<and>
           result st' =
             \<lparr>resp = scanItems (getKey h) key (Items bucket) \<lparr>Valid = False, Data = zero_T h\<rparr>,
              err = None\<rparr> \<and>
           fetches (calls st') = fetches (calls st)"
proof -
  from b bu obtain off where
    off: "computeBitOffsetAtNextLevel kh d = Some off" and bit: "\<not> GetBit (Bitset bucket) off"
    by (auto simp add: bitAt_def split: option.splits sum.splits)
  from d have s: "hashLen st = d" "rootBucketFn st = Some (Inr bucket)" "nextCall st"
    "result st = \<lparr>resp = \<lparr>Valid = False, Data = zero_T h\<rparr>, err = None\<rparr>"
    using bu by (simp_all add: descended_def)
  let ?st' = "st\<lparr>nextCall := False,
    calls := calls st @ [Call_computeBitOffsetAtNextLevel kh d],
    result :=
      \<lparr>resp = scanItems (getKey h) key (Items bucket) \<lparr>Valid = False, Data = zero_T h\<rparr>,
       err = None\<rparr>\<rparr>"
  have n: "nextCallFn h rk key kh (st\<lparr>nextCall := False\<rparr>) = Some ?st'"
    using bit by (simp add: nextCallFn_def s off Let_def)
  have "Execute h rk key kh st = Execute h rk key kh ?st'"
    using s(3) n by (rule Execute_queued)
  then show ?thesis by (simp add: Execute_idle fetches_append)
qed

lemma terminal_error:
  assumes d: "descended h rk kh d st" and bu: "bucketAt h rk kh d = Some (Inl e)"
  shows "\<exists>st'. Execute h rk key kh st = Some st' \<and>
           result st' = \<lparr>resp = \<lparr>Valid = False, Data = zero_T h\<rparr>, err = Some e\<rparr> \<and>
           fetches (calls st') = fetches (calls st)"
proof -
  from d have s: "hashLen st = d" "rootBucketFn st = Some (Inl e)" "nextCall st"
    "result st = \<lparr>resp = \<lparr>Valid = False, Data = zero_T h\<rparr>, err = None\<rparr>"
    using bu by (simp_all add: descended_def)
  let ?st' = "st\<lparr>nextCall := False,
    result := \<lparr>resp = \<lparr>Valid = False, Data = zero_T h\<rparr>, err = Some e\<rparr>\<rparr>"
  have n: "nextCallFn h rk key kh (st\<lparr>nextCall := False\<rparr>) = Some ?st'"
    by (simp add: nextCallFn_def s)
  have "Execute h rk key kh st = Execute h rk key kh ?st'"
    using s(3) n by (rule Execute_queued)
  then show ?thesis by (simp add: Execute_idle)
qed

lemma terminal_too_deep:
  assumes d: "descended h rk kh 4 st" and b: "bitAt h rk kh 4 = Some True"
  shows "\<exists>st'. Execute h rk key kh st = Some st' \<and>
           result st' = \<lparr>resp = \<lparr>Valid = False, Data = zero_T h\<rparr>, err = Some ErrHashTooDeep\<rparr> \<and>
           fetches (calls st') = fetches (calls st)"
proof -
  from b obtain bucket off where
    bu: "bucketAt h rk kh 4 = Some (Inr bucket)" and
    off: "computeBitOffsetAtNextLevel kh 4 = Some off" and
    bit: "GetBit (Bitset bucket) off"
    by (auto simp add: bitAt_def split: option.splits sum.splits)
  from d have s: "hashLen st = 4" "rootBucketFn st = Some (Inr bucket)" "nextCall st"
    "result st = \<lparr>resp = \<lparr>Valid = False, Data = zero_T h\<rparr>, err = None\<rparr>"
    using bu by (simp_all add: descended_def)
  have g: "go_int 5 = 5" by (simp add: go_int_id)
  let ?st' = "st\<lparr>nextCall := False,
    calls := calls st @ [Call_computeBitOffsetAtNextLevel kh 4],
    hashLen := 5,
    result := \<lparr>resp = \<lparr>Valid = False, Data = zero_T h\<rparr>, err = Some ErrHashTooDeep\<rparr>\<rparr>"
  have n: "nextCallFn h rk key kh (st\<lparr>nextCall := False\<rparr>) = Some ?st'"
    using bit by (simp add: nextCallFn_def s off Let_def g maxDeepLevels_def)
  have "Execute h rk key kh st = Execute h rk key kh ?st'"
    using s(3) n by (rule Execute_queued)
  then show ?thesis by (simp add: Execute_idle fetches_append)
qed

section \<open>The invariant of a call\<close>

lemma fetched_key_in_range:
  assumes "0 \<le> d" "d \<le> 4" "computeHashAtLevel kh d = Some hp"
  shows "callInRange (Call_bucketItem_Get \<lparr>RootKey = rk, Hash = hp, HashLen = d\<rparr>)"
proof -
  have n: "nat d \<le> 8" using assms by simp
  have "hp = kh AND NOT (mask (64 - 8 * nat d))"
    using assms computeHashAtLevel_mask [of d kh] by simp
  then show ?thesis using assms n by (simp add: PutUint64_masked length_PutUint64)
qed

lemma doGetFn_inv:
  assumes "0 \<le> hashLen st" "hashLen st < maxDeepLevels" "list_all callInRange (calls st)"
    "result st = \<lparr>resp = \<lparr>Valid = False, Data = zero_T h\<rparr>, err = None\<rparr>"
  shows "\<exists>st'. doGetFn h rk kh st = Some st' \<and> getInv h st'"
proof -
  have r: "0 \<le> hashLen st" "hashLen st \<le> 4" "hashLen st \<le> 8"
    using assms by (simp_all add: maxDeepLevels_def)
  obtain hp where hp: "computeHashAtLevel kh (hashLen st) = Some hp"
    using computeHashAtLevel_Some [OF r(1) r(3)] by blast
  have k: "callInRange (Call_bucketItem_Get \<lparr>RootKey = rk, Hash = hp, HashLen = hashLen st\<rparr>)"
    using fetched_key_in_range [OF r(1) r(2) hp] .
  have c: "callInRange (Call_computeHashAtLevel kh (hashLen st))"
    using r by (simp add: shl_count)
  show ?thesis
    using assms k c r by (simp add: doGetFn_def hp Let_def getInv_def del: callInRange.simps)
qed

lemma nextCallFn_inv:
  assumes "getInv h st" "nextCall st"
  shows "\<exists>st'. nextCallFn h rk key kh (st\<lparr>nextCall := False\<rparr>) = Some st' \<and> getInv h st'"
proof -
  from assms have r: "0 \<le> hashLen st" "hashLen st < maxDeepLevels"
    and l: "list_all callInRange (calls st)"
    and z: "result st = \<lparr>resp = \<lparr>Valid = False, Data = zero_T h\<rparr>, err = None\<rparr>"
    by (simp_all add: getInv_def)
  from assms obtain x where x: "rootBucketFn st = Some x"
    by (auto simp add: getInv_def)
  show ?thesis
  proof (cases x)
    case (Inl e)
    then show ?thesis using x r l z
      by (simp add: nextCallFn_def getInv_def)
  next
    case (Inr bucket)
    have r8: "hashLen st < 8" "hashLen st \<le> 4" using r by (simp_all add: maxDeepLevels_def)
    obtain off where off: "computeBitOffsetAtNextLevel kh (hashLen st) = Some off"
      using computeBitOffsetAtNextLevel_Some [OF r(1) r8(1)] by blast
    have c: "callInRange (Call_computeBitOffsetAtNextLevel kh (hashLen st))"
      using r r8 by (simp add: shr_count)
    have g: "go_int (hashLen st + 1) = hashLen st + 1"
      using r r8 by (simp add: go_int_id)
    let ?st1 = "st\<lparr>nextCall := False,
      calls := calls st @ [Call_computeBitOffsetAtNextLevel kh (hashLen st)]\<rparr>"
    show ?thesis
    proof (cases "GetBit (Bitset bucket) off")
      case False
      then show ?thesis using x Inr r l z c
        by (simp add: nextCallFn_def off Let_def getInv_def del: callInRange.simps)
    next
      case True
      show ?thesis
      proof (cases "hashLen st + 1 \<ge> maxDeepLevels")
        case True
        then show ?thesis using x Inr r l z c \<open>GetBit (Bitset bucket) off\<close>
          by (simp add: nextCallFn_def off Let_def getInv_def g del: callInRange.simps)
      next
        case False
        let ?st2 = "?st1\<lparr>hashLen := hashLen st + 1\<rparr>"
        have "\<exists>st'. doGetFn h rk kh ?st2 = Some st' \<and> getInv h st'"
          by (rule doGetFn_inv) (use False r l z c in \<open>simp_all del: callInRange.simps\<close>)
        moreover have "nextCallFn h rk key kh (st\<lparr>nextCall := False\<rparr>) = doGetFn h rk kh ?st2"
          using x Inr False \<open>GetBit (Bitset bucket) off\<close>
          by (simp add: nextCallFn_def off Let_def g)
        ultimately show ?thesis by simp
      qed
    qed
  qed
qed

lemma Execute_inv:
  "getInv h st \<Longrightarrow> \<exists>st'. Execute h rk key kh st = Some st' \<and> getInv h st' \<and> \<not> nextCall st'"
proof (induction h rk key kh st rule: Execute.induct)
  case (1 h rootKey key keyHash st)
  show ?case
  proof (cases "nextCall st")
    case False
    then show ?thesis using "1.prems" by (simp add: Execute_idle)
  next
    case True
    obtain st1 where s: "nextCallFn h rootKey key keyHash (st\<lparr>nextCall := False\<rparr>) = Some st1"
      "getInv h st1"
      using nextCallFn_inv [OF "1.prems" True] by blast
    have "\<exists>st'. Execute h rootKey key keyHash st1 = Some st' \<and> getInv h st' \<and> \<not> nextCall st'"
      using "1.IH" [OF True s(1) s(2)] .
    then show ?thesis using Execute_queued [OF True s(1)] by simp
  qed
qed

lemma Get_run_inv:
  "\<exists>st. Get_run h rk key = Some st \<and> getInv h st \<and> \<not> nextCall st"
proof -
  obtain st0 where s: "doGetFn h rk (Key_Hash h key) (Get_init (zero_T h)) = Some st0"
    "getInv h st0"
    using doGetFn_inv [of "Get_init (zero_T h)" h rk "Key_Hash h key"]
    by (auto simp add: Get_init_def maxDeepLevels_def)
  then show ?thesis
    using Execute_inv [OF s(2), of rk key "Key_Hash h key"] by (simp add: Get_run_def Let_def)
qed

text \<open>Every call returns, and its outcome is a found item, an absent key or an error:
  an error never comes with a value.\<close>

lemma Get_outcome:
  "\<exists>r e. Get h rootKey key = Some (r, e) \<and> (e = None \<or> r = \<lparr>Valid = False, Data = zero_T h\<rparr>)"
  using Get_run_inv [of h rootKey key] by (auto simp add: getInv_def Get_def)

section \<open>The examples, evaluated\<close>

lemma below_1: "{0..<1 :: int} = {0}"
  by auto

lemma upto_0_1: "[0..1] = [0, 1 :: int]"
  by (simp add: upto_rec1)

lemma upto_0_4: "[0..4] = [0, 1, 2, 3, 4 :: int]"
  by (simp add: upto_rec1)

lemma demo_bit_0: "bitAt demoHash ''root'' (Key_Hash demoHash 7) 0 = Some True"
  by code_simp

lemma demo_bit_1: "bitAt demoHash ''root'' (Key_Hash demoHash 7) 1 = Some False"
  by code_simp

lemma demo_bucket_1:
  "bucketAt demoHash ''root'' (Key_Hash demoHash 7) 1 =
     Some (Inr \<lparr>Items = [(5, ''x''), (7, ''b''), (7, ''c'')], Bitset = replicate 32 0\<rparr>)"
  by code_simp

lemma demo_bit_0': "bitAt demoHash ''root'' (Key_Hash demoHash 8) 0 = Some True"
  by code_simp

lemma demo_error_1:
  "bucketAt demoHash ''root'' (Key_Hash demoHash 8) 1 = Some (Inl (BackendError ''down''))"
  by code_simp

lemma deep_bits:
  "bitAt deepHash ''root'' (Key_Hash deepHash 7) 0 = Some True"
  "bitAt deepHash ''root'' (Key_Hash deepHash 7) 1 = Some True"
  "bitAt deepHash ''root'' (Key_Hash deepHash 7) 2 = Some True"
  "bitAt deepHash ''root'' (Key_Hash deepHash 7) 3 = Some True"
  "bitAt deepHash ''root'' (Key_Hash deepHash 7) 4 = Some True"
  by code_simp+

section \<open>The terminal bucket\<close>

text \<open>
  Claim C1. For every bucket reached by \<^verbatim>\<open>Get\<close> whose bitset bit at the query key's
  next-byte offset is unset, \<^verbatim>\<open>Get\<close> scans \<^verbatim>\<open>bucket.Items\<close> in storage order and returns
  the first item whose projected key equals the query key, with \<^verbatim>\<open>Valid = true\<close> and a
  \<^verbatim>\<open>nil\<close> error; if no item matches, it returns \<^verbatim>\<open>Valid = false\<close> with a \<^verbatim>\<open>nil\<close> error.
  The bucket at depth \<open>d\<close> is reached when every fetch above it succeeded and found the
  bit of the query set. \<open>find\<close> returns the first element of a list that satisfies a
  predicate, here equality of the whole key.
\<close>

theorem Get_terminal_bucket_scan:
  assumes "0 \<le> d" "d < maxDeepLevels"
    and "\<forall>j\<in>{0..<d}. bitAt h rootKey (Key_Hash h key) j = Some True"
    and "bucketAt h rootKey (Key_Hash h key) d = Some (Inr bucket)"
    and "bitAt h rootKey (Key_Hash h key) d = Some False"
  shows "Get h rootKey key =
           Some (case find (\<lambda>item. getKey h item = key) (Items bucket) of
                   Some item \<Rightarrow> \<lparr>Valid = True, Data = item\<rparr>
                 | None \<Rightarrow> \<lparr>Valid = False, Data = zero_T h\<rparr>,
                 None)"
proof -
  have n: "int (nat d) = d" using assms(1) by simp
  obtain st where st: "Get_run h rootKey key = Execute h rootKey key (Key_Hash h key) st"
    "descended h rootKey (Key_Hash h key) d st"
    using descend_to [of "nat d" h rootKey key] assms(2,3) n by auto
  obtain st' where "Execute h rootKey key (Key_Hash h key) st = Some st'"
    "result st' =
       \<lparr>resp = scanItems (getKey h) key (Items bucket) \<lparr>Valid = False, Data = zero_T h\<rparr>,
        err = None\<rparr>"
    using terminal_scan [OF st(2) assms(1,2,4,5)] by blast
  then show ?thesis using st(1)
    by (simp add: Get_def scanItems_find split: option.splits)
qed

theorem Get_terminal_bucket_scan_witness:
  "bitAt demoHash ''root'' (Key_Hash demoHash 7) 0 = Some True \<and>
   bitAt demoHash ''root'' (Key_Hash demoHash 7) 1 = Some False \<and>
   bucketAt demoHash ''root'' (Key_Hash demoHash 7) 1 =
     Some (Inr \<lparr>Items = [(5, ''x''), (7, ''b''), (7, ''c'')], Bitset = replicate 32 0\<rparr>) \<and>
   Get demoHash ''root'' 7 = Some (\<lparr>Valid = True, Data = (7, ''b'')\<rparr>, None) \<and>
   Get demoHash ''root'' 1 = Some (\<lparr>Valid = True, Data = (1, ''a'')\<rparr>, None) \<and>
   Get demoHash ''root'' 2 = Some (\<lparr>Valid = False, Data = (0, '''')\<rparr>, None)"
proof -
  have h1: "(0 :: int) \<le> 1" by simp
  have h2: "(1 :: int) < maxDeepLevels" by (simp add: maxDeepLevels_def)
  have h3: "\<forall>j\<in>{0..<1 :: int}. bitAt demoHash ''root'' (Key_Hash demoHash 7) j = Some True"
    unfolding below_1 using demo_bit_0 by simp
  have g: "getKey demoHash = fst" "zero_T demoHash = (0, '''')" by (simp_all add: demoHash_def)
  have a: "Get demoHash ''root'' 7 = Some (\<lparr>Valid = True, Data = (7, ''b'')\<rparr>, None)"
    using Get_terminal_bucket_scan [OF h1 h2 h3 demo_bucket_1 demo_bit_1] by (simp add: g)
  have z1: "(0 :: int) \<le> 0" by simp
  have z2: "(0 :: int) < maxDeepLevels" by (simp add: maxDeepLevels_def)
  have r1: "bucketAt demoHash ''root'' (Key_Hash demoHash 1) 0 =
      Some (Inr \<lparr>Items = [(1, ''a'')], Bitset = demoRootBitset\<rparr>)"
    by code_simp
  have r2: "bucketAt demoHash ''root'' (Key_Hash demoHash 2) 0 =
      Some (Inr \<lparr>Items = [(1, ''a'')], Bitset = demoRootBitset\<rparr>)"
    by code_simp
  have b1: "bitAt demoHash ''root'' (Key_Hash demoHash 1) 0 = Some False" by code_simp
  have b2: "bitAt demoHash ''root'' (Key_Hash demoHash 2) 0 = Some False" by code_simp
  have b: "Get demoHash ''root'' 1 = Some (\<lparr>Valid = True, Data = (1, ''a'')\<rparr>, None)"
    using Get_terminal_bucket_scan [OF z1 z2 _ r1 b1] by (simp add: g)
  have c: "Get demoHash ''root'' 2 = Some (\<lparr>Valid = False, Data = (0, '''')\<rparr>, None)"
    using Get_terminal_bucket_scan [OF z1 z2 _ r2 b2] by (simp add: g)
  show ?thesis using demo_bit_0 demo_bit_1 demo_bucket_1 a b c by simp
qed

section \<open>The depth bound\<close>

text \<open>
  Claim C2. For every query whose descent finds the relevant bitset bit set at every
  depth 0 through 4, \<^verbatim>\<open>Get\<close> stops with the error \<^verbatim>\<open>ErrHashTooDeep\<close> when the depth
  would reach \<open>maxDeepLevels = 5\<close>: exactly five fetches are issued, for the bucket keys
  of the descent at the depths 0 to 4, none at depth 5, and the returned \<^verbatim>\<open>Null\<close> has
  \<^verbatim>\<open>Valid = false\<close>.
\<close>

theorem Get_too_deep:
  assumes "\<forall>d\<in>{0..<maxDeepLevels}. bitAt h rootKey (Key_Hash h key) d = Some True"
  shows "Get h rootKey key = Some (\<lparr>Valid = False, Data = zero_T h\<rparr>, Some ErrHashTooDeep) \<and>
         (\<exists>fs. Get_fetches h rootKey key = Some fs \<and>
               map Some fs = map (bucketKeyAt rootKey (Key_Hash h key)) [0, 1, 2, 3, 4] \<and>
               map HashLen fs = [0, 1, 2, 3, 4] \<and> length fs = 5)"
proof -
  have a: "\<forall>j\<in>{0..<int 4}. bitAt h rootKey (Key_Hash h key) j = Some True"
    and b: "bitAt h rootKey (Key_Hash h key) 4 = Some True"
    using assms by (simp_all add: maxDeepLevels_def)
  obtain st where st: "Get_run h rootKey key = Execute h rootKey key (Key_Hash h key) st"
    "descended h rootKey (Key_Hash h key) 4 st"
    using descend_to [of 4 h rootKey key, OF _ a] by (auto simp add: maxDeepLevels_def)
  obtain st' where st': "Execute h rootKey key (Key_Hash h key) st = Some st'"
    "result st' = \<lparr>resp = \<lparr>Valid = False, Data = zero_T h\<rparr>, err = Some ErrHashTooDeep\<rparr>"
    "fetches (calls st') = fetches (calls st)"
    using terminal_too_deep [OF st(2) b] by blast
  have f: "map Some (fetches (calls st'))
             = map (bucketKeyAt rootKey (Key_Hash h key)) [0, 1, 2, 3, 4]"
    using st(2) st'(3) upto_0_4 by (simp add: descended_def)
  have l: "map HashLen (fetches (calls st')) = [0, 1, 2, 3, 4]"
    using fetched_depths [OF f] .
  have "length (map HashLen (fetches (calls st'))) = 5" by (simp only: l) simp
  then have "length (fetches (calls st')) = 5" by simp
  then show ?thesis using st(1) st' f l
    by (simp add: Get_def Get_fetches_def)
qed

theorem Get_too_deep_witness:
  "bitAt deepHash ''root'' (Key_Hash deepHash 7) 0 = Some True \<and>
   bitAt deepHash ''root'' (Key_Hash deepHash 7) 4 = Some True \<and>
   Get deepHash ''root'' 7 = Some (\<lparr>Valid = False, Data = (0, '''')\<rparr>, Some ErrHashTooDeep) \<and>
   (\<exists>fs. Get_fetches deepHash ''root'' 7 = Some fs \<and> map HashLen fs = [0, 1, 2, 3, 4] \<and>
         length fs = 5)"
proof -
  have s: "{0..<maxDeepLevels} = {0, 1, 2, 3, 4}" by (auto simp add: maxDeepLevels_def)
  have h: "\<forall>d\<in>{0..<maxDeepLevels}. bitAt deepHash ''root'' (Key_Hash deepHash 7) d = Some True"
    unfolding s using deep_bits by simp
  have z: "zero_T deepHash = (0, '''')" by (simp add: deepHash_def)
  from Get_too_deep [OF h] show ?thesis using deep_bits z by auto
qed

section \<open>A failed fetch\<close>

text \<open>
  Claim C3. For every depth at which the bucket fetch yields an error, \<^verbatim>\<open>Get\<close> stores
  and returns that exact error value unchanged, issues no fetch at any deeper level (the
  fetches are those of the depths 0 to \<open>d\<close>), and the returned \<^verbatim>\<open>Null\<close> stays
  \<^verbatim>\<open>Valid = false\<close>. No partial result is ever combined with an error: whatever the
  root key and the query key, \<^verbatim>\<open>Get\<close> returns, and when the error is not \<^verbatim>\<open>nil\<close> the
  \<^verbatim>\<open>Null\<close> is the zero value.
\<close>

theorem Get_fetch_error:
  assumes "0 \<le> d" "d < maxDeepLevels"
    and "\<forall>j\<in>{0..<d}. bitAt h rootKey (Key_Hash h key) j = Some True"
    and "bucketAt h rootKey (Key_Hash h key) d = Some (Inl e)"
  shows "Get h rootKey key = Some (\<lparr>Valid = False, Data = zero_T h\<rparr>, Some e) \<and>
         (\<exists>fs. Get_fetches h rootKey key = Some fs \<and>
               map Some fs = map (bucketKeyAt rootKey (Key_Hash h key)) [0..d] \<and>
               map HashLen fs = [0..d]) \<and>
         (\<forall>rootKey' key'. \<exists>r e'. Get h rootKey' key' = Some (r, e') \<and>
               (e' = None \<or> r = \<lparr>Valid = False, Data = zero_T h\<rparr>))"
proof -
  have n: "int (nat d) = d" using assms(1) by simp
  obtain st where st: "Get_run h rootKey key = Execute h rootKey key (Key_Hash h key) st"
    "descended h rootKey (Key_Hash h key) d st"
    using descend_to [of "nat d" h rootKey key] assms(2,3) n by auto
  obtain st' where st': "Execute h rootKey key (Key_Hash h key) st = Some st'"
    "result st' = \<lparr>resp = \<lparr>Valid = False, Data = zero_T h\<rparr>, err = Some e\<rparr>"
    "fetches (calls st') = fetches (calls st)"
    using terminal_error [OF st(2) assms(4)] by blast
  have f: "map Some (fetches (calls st')) = map (bucketKeyAt rootKey (Key_Hash h key)) [0..d]"
    using st(2) st'(3) by (simp add: descended_def)
  have "Get h rootKey key = Some (\<lparr>Valid = False, Data = zero_T h\<rparr>, Some e)"
    using st(1) st' by (simp add: Get_def)
  moreover have "\<exists>fs. Get_fetches h rootKey key = Some fs \<and>
      map Some fs = map (bucketKeyAt rootKey (Key_Hash h key)) [0..d] \<and> map HashLen fs = [0..d]"
    using st(1) st' f fetched_depths [OF f] by (simp add: Get_fetches_def)
  ultimately show ?thesis using Get_outcome [of h] by blast
qed

theorem Get_fetch_error_witness:
  "bitAt demoHash ''root'' (Key_Hash demoHash 8) 0 = Some True \<and>
   bucketAt demoHash ''root'' (Key_Hash demoHash 8) 1 = Some (Inl (BackendError ''down'')) \<and>
   Get demoHash ''root'' 8 = Some (\<lparr>Valid = False, Data = (0, '''')\<rparr>, Some (BackendError ''down'')) \<and>
   (\<exists>fs. Get_fetches demoHash ''root'' 8 = Some fs \<and> map HashLen fs = [0, 1])"
proof -
  have h1: "(0 :: int) \<le> 1" by simp
  have h2: "(1 :: int) < maxDeepLevels" by (simp add: maxDeepLevels_def)
  have h3: "\<forall>j\<in>{0..<1 :: int}. bitAt demoHash ''root'' (Key_Hash demoHash 8) j = Some True"
    unfolding below_1 using demo_bit_0' by simp
  have z: "zero_T demoHash = (0, '''')" by (simp add: demoHash_def)
  from Get_fetch_error [OF h1 h2 h3 demo_error_1]
  show ?thesis using demo_bit_0' demo_error_1 z upto_0_1 by auto
qed

section \<open>The range of the depth\<close>




section \<open>A shared session and a session of one's own\<close>

text \<open>
  The continuations of the other calls on a session do not touch the variables of a
  call: after the session is drained, every registered call is in the state that
  \<open>Execute\<close> reaches for it alone.
\<close>

lemma runContinuation_Execute:
  assumes "getInv h (vars c)"
  shows "\<exists>c'. runContinuation h c = Some c' \<and> getInv h (vars c') \<and>
           rootKeyOf c' = rootKeyOf c \<and> keyOf c' = keyOf c \<and>
           Execute h (rootKeyOf c) (keyOf c) (Key_Hash h (keyOf c)) (vars c') =
           Execute h (rootKeyOf c) (keyOf c) (Key_Hash h (keyOf c)) (vars c)"
proof (cases "nextCall (vars c)")
  case False
  then show ?thesis using assms by (simp add: runContinuation_def)
next
  case True
  obtain st where st: "nextCallFn h (rootKeyOf c) (keyOf c) (Key_Hash h (keyOf c))
      ((vars c)\<lparr>nextCall := False\<rparr>) = Some st" "getInv h st"
    using nextCallFn_inv [OF assms True] by blast
  have "Execute h (rootKeyOf c) (keyOf c) (Key_Hash h (keyOf c)) (vars c) =
        Execute h (rootKeyOf c) (keyOf c) (Key_Hash h (keyOf c)) st"
    using True st(1) by (rule Execute_queued)
  then show ?thesis using True st by (simp add: runContinuation_def)
qed

lemma runContinuations_Execute:
  assumes "list_all (\<lambda>c. getInv h (vars c)) cs"
  shows "\<exists>cs'. runContinuations h cs = Some cs' \<and> list_all (\<lambda>c. getInv h (vars c)) cs' \<and>
           map (\<lambda>c. Execute h (rootKeyOf c) (keyOf c) (Key_Hash h (keyOf c)) (vars c)) cs' =
           map (\<lambda>c. Execute h (rootKeyOf c) (keyOf c) (Key_Hash h (keyOf c)) (vars c)) cs"
  using assms
proof (induction cs)
  case Nil
  then show ?case by simp
next
  case (Cons c cs)
  then obtain cs' where cs': "runContinuations h cs = Some cs'"
    "list_all (\<lambda>c. getInv h (vars c)) cs'"
    "map (\<lambda>c. Execute h (rootKeyOf c) (keyOf c) (Key_Hash h (keyOf c)) (vars c)) cs' =
     map (\<lambda>c. Execute h (rootKeyOf c) (keyOf c) (Key_Hash h (keyOf c)) (vars c)) cs"
    by auto
  from Cons.prems have "getInv h (vars c)" by simp
  from runContinuation_Execute [OF this] obtain c' where c': "runContinuation h c = Some c'"
    "getInv h (vars c')" "rootKeyOf c' = rootKeyOf c" "keyOf c' = keyOf c"
    "Execute h (rootKeyOf c) (keyOf c) (Key_Hash h (keyOf c)) (vars c') =
     Execute h (rootKeyOf c) (keyOf c) (Key_Hash h (keyOf c)) (vars c)"
    by blast
  show ?case using cs' c' by simp
qed

lemma drainAll_Execute:
  "list_all (\<lambda>c. getInv h (vars c)) cs \<Longrightarrow>
   \<exists>cs' trips'. drainAll h cs trips = Some (cs', trips') \<and>
     map (\<lambda>c. Some (vars c)) cs' =
     map (\<lambda>c. Execute h (rootKeyOf c) (keyOf c) (Key_Hash h (keyOf c)) (vars c)) cs"
proof (induction h cs trips rule: drainAll.induct)
  case (1 h cs trips)
  show ?case
  proof (cases "list_ex (\<lambda>c. nextCall (vars c)) cs")
    case False
    then have "\<forall>c\<in>set cs. \<not> nextCall (vars c)" by (simp add: list_ex_iff)
    then have "map (\<lambda>c. Execute h (rootKeyOf c) (keyOf c) (Key_Hash h (keyOf c)) (vars c)) cs =
        map (\<lambda>c. Some (vars c)) cs"
      by (simp add: Execute_idle)
    then show ?thesis using False by (subst drainAll.simps) simp
  next
    case True
    obtain cs1 where cs1: "runContinuations h cs = Some cs1"
      "list_all (\<lambda>c. getInv h (vars c)) cs1"
      "map (\<lambda>c. Execute h (rootKeyOf c) (keyOf c) (Key_Hash h (keyOf c)) (vars c)) cs1 =
       map (\<lambda>c. Execute h (rootKeyOf c) (keyOf c) (Key_Hash h (keyOf c)) (vars c)) cs"
      using runContinuations_Execute [OF "1.prems"] by blast
    from "1.IH" [OF True cs1(1) cs1(2)] obtain cs' trips' where
      d: "drainAll h cs1 (trips @ [concat (map queuedFetch cs)]) = Some (cs', trips')"
        "map (\<lambda>c. Some (vars c)) cs' =
         map (\<lambda>c. Execute h (rootKeyOf c) (keyOf c) (Key_Hash h (keyOf c)) (vars c)) cs1"
      by blast
    have "drainAll h cs trips = drainAll h cs1 (trips @ [concat (map queuedFetch cs)])"
      using True cs1(1) by (subst drainAll.simps) simp
    then show ?thesis using d cs1(3) by simp
  qed
qed

lemma Get_register_Get_run:
  "\<exists>c. Get_register h rootKey key = Some c \<and> getInv h (vars c) \<and>
       Execute h (rootKeyOf c) (keyOf c) (Key_Hash h (keyOf c)) (vars c) = Get_run h rootKey key"
proof -
  obtain st0 where s: "doGetFn h rootKey (Key_Hash h key) (Get_init (zero_T h)) = Some st0"
    "getInv h st0"
    using doGetFn_inv [of "Get_init (zero_T h)" h rootKey "Key_Hash h key"]
    by (auto simp add: Get_init_def maxDeepLevels_def)
  then show ?thesis by (simp add: Get_register_def Get_run_def Let_def)
qed

lemma shared_session_agrees:
  assumes "Get_register h rootKey1 key1 = Some c1" "Get_register h rootKey2 key2 = Some c2"
  shows "\<exists>cs trips. drainAll h [c1, c2] [] = Some (cs, trips) \<and>
           map (\<lambda>c. Some (vars c)) cs = [Get_run h rootKey1 key1, Get_run h rootKey2 key2]"
proof -
  have 1: "getInv h (vars c1)"
    "Execute h (rootKeyOf c1) (keyOf c1) (Key_Hash h (keyOf c1)) (vars c1) = Get_run h rootKey1 key1"
    using Get_register_Get_run [of h rootKey1 key1] assms(1) by auto
  have 2: "getInv h (vars c2)"
    "Execute h (rootKeyOf c2) (keyOf c2) (Key_Hash h (keyOf c2)) (vars c2) = Get_run h rootKey2 key2"
    using Get_register_Get_run [of h rootKey2 key2] assms(2) by auto
  have "list_all (\<lambda>c. getInv h (vars c)) [c1, c2]" using 1(1) 2(1) by simp
  from drainAll_Execute [OF this, of "[]"] show ?thesis using 1(2) 2(2) by simp
qed

section \<open>Two calls that share the root bucket\<close>

lemma root_terminal:
  assumes d: "descended h rk kh 0 st" and b: "bitAt h rk kh 0 \<noteq> Some True"
  shows "\<exists>st'. nextCallFn h rk key kh (st\<lparr>nextCall := False\<rparr>) = Some st' \<and> \<not> nextCall st' \<and>
           Execute h rk key kh st = Some st'"
proof -
  from d obtain x where x: "rootBucketFn st = Some x" "bucketAt h rk kh 0 = Some x"
    by (auto simp add: descended_def)
  from d have q: "nextCall st" "hashLen st = 0" by (simp_all add: descended_def)
  obtain off where off: "computeBitOffsetAtNextLevel kh 0 = Some off"
    using computeBitOffsetAtNextLevel_Some [of 0 kh] by auto
  have "\<exists>st'. nextCallFn h rk key kh (st\<lparr>nextCall := False\<rparr>) = Some st' \<and> \<not> nextCall st'"
  proof (cases x)
    case (Inl e)
    then show ?thesis using x by (simp add: nextCallFn_def)
  next
    case (Inr bucket)
    then have "\<not> GetBit (Bitset bucket) off"
      using b x off by (simp add: bitAt_def)
    then show ?thesis using x Inr q off by (simp add: nextCallFn_def Let_def)
  qed
  then obtain st' where s: "nextCallFn h rk key kh (st\<lparr>nextCall := False\<rparr>) = Some st'"
    "\<not> nextCall st'"
    by blast
  have "Execute h rk key kh st = Execute h rk key kh st'"
    using q(1) s(1) by (rule Execute_queued)
  then show ?thesis using s by (simp add: Execute_idle)
qed

text \<open>A call whose descent ends at the root: what it registers, and what its one
  continuation does.\<close>

lemma register_root_only:
  assumes "bitAt h rootKey (Key_Hash h key) 0 \<noteq> Some True"
  shows "\<exists>st st'.
      Get_register h rootKey key = Some \<lparr>rootKeyOf = rootKey, keyOf = key, vars = st\<rparr> \<and>
      nextCall st \<and> fetches (calls st) = [\<lparr>RootKey = rootKey, Hash = 0, HashLen = 0\<rparr>] \<and>
      nextCallFn h rootKey key (Key_Hash h key) (st\<lparr>nextCall := False\<rparr>) = Some st' \<and>
      \<not> nextCall st' \<and> Get_run h rootKey key = Some st'"
proof -
  let ?k = "\<lparr>RootKey = rootKey, Hash = 0, HashLen = 0\<rparr>"
  obtain st where st: "doGetFn h rootKey (Key_Hash h key) (Get_init (zero_T h)) = Some st"
    "descended h rootKey (Key_Hash h key) 0 st"
    using descended_root [of h rootKey "Key_Hash h key"] by auto
  obtain st' where st':
    "nextCallFn h rootKey key (Key_Hash h key) (st\<lparr>nextCall := False\<rparr>) = Some st'"
    "\<not> nextCall st'" "Execute h rootKey key (Key_Hash h key) st = Some st'"
    using root_terminal [OF st(2) assms] by blast
  have "map Some (fetches (calls st)) = [Some ?k]"
    using st(2) by (simp add: descended_def bucketKeyAt_root)
  then have f: "fetches (calls st) = [?k]" by (auto simp add: map_eq_Cons_conv)
  have q: "nextCall st" using st(2) by (simp add: descended_def)
  show ?thesis using st(1) st' f q
    by (simp add: Get_register_def Get_run_def Let_def)
qed

text \<open>
  Two calls under the same root key whose descents end at the root. Each passes the
  bucket key of the root (prefix 0, depth 0) to the item accessor when it is registered,
  so the one round of the drain holds two requests for this key. Whether they become
  one fetch at the backend is for the item accessor to decide.
\<close>

lemma root_only_calls_request_the_root_twice:
  assumes "bitAt h rootKey (Key_Hash h key1) 0 \<noteq> Some True"
    and "bitAt h rootKey (Key_Hash h key2) 0 \<noteq> Some True"
  shows "\<exists>c1 c2 cs.
           Get_register h rootKey key1 = Some c1 \<and>
           Get_register h rootKey key2 = Some c2 \<and>
           drainAll h [c1, c2] [] =
             Some (cs, [[\<lparr>RootKey = rootKey, Hash = 0, HashLen = 0\<rparr>,
                         \<lparr>RootKey = rootKey, Hash = 0, HashLen = 0\<rparr>]]) \<and>
           map (\<lambda>c. Some (vars c)) cs = [Get_run h rootKey key1, Get_run h rootKey key2]"
proof -
  let ?k = "\<lparr>RootKey = rootKey, Hash = 0, HashLen = 0\<rparr>"
  from register_root_only [OF assms(1)] obtain s1 s1' where
    1: "Get_register h rootKey key1 = Some \<lparr>rootKeyOf = rootKey, keyOf = key1, vars = s1\<rparr>"
      "nextCall s1" "fetches (calls s1) = [?k]"
      "nextCallFn h rootKey key1 (Key_Hash h key1) (s1\<lparr>nextCall := False\<rparr>) = Some s1'"
      "\<not> nextCall s1'" "Get_run h rootKey key1 = Some s1'"
    by blast
  from register_root_only [OF assms(2)] obtain s2 s2' where
    2: "Get_register h rootKey key2 = Some \<lparr>rootKeyOf = rootKey, keyOf = key2, vars = s2\<rparr>"
      "nextCall s2" "fetches (calls s2) = [?k]"
      "nextCallFn h rootKey key2 (Key_Hash h key2) (s2\<lparr>nextCall := False\<rparr>) = Some s2'"
      "\<not> nextCall s2'" "Get_run h rootKey key2 = Some s2'"
    by blast
  let ?c1 = "\<lparr>rootKeyOf = rootKey, keyOf = key1, vars = s1\<rparr>"
  let ?c2 = "\<lparr>rootKeyOf = rootKey, keyOf = key2, vars = s2\<rparr>"
  let ?c1' = "\<lparr>rootKeyOf = rootKey, keyOf = key1, vars = s1'\<rparr>"
  let ?c2' = "\<lparr>rootKeyOf = rootKey, keyOf = key2, vars = s2'\<rparr>"
  have r: "runContinuations h [?c1, ?c2] = Some [?c1', ?c2']"
    using 1 2 by (simp add: runContinuation_def)
  have b: "concat (map queuedFetch [?c1, ?c2]) = [?k, ?k]"
    using 1 2 by (simp add: queuedFetch_def)
  have e: "drainAll h [?c1', ?c2'] [[?k, ?k]] = Some ([?c1', ?c2'], [[?k, ?k]])"
    using 1(5) 2(5) by (subst drainAll.simps) simp
  have "drainAll h [?c1, ?c2] [] = drainAll h [?c1', ?c2'] [[?k, ?k]]"
    using 1(2) r b by (subst drainAll.simps) simp
  then have "drainAll h [?c1, ?c2] [] = Some ([?c1', ?c2'], [[?k, ?k]])"
    using e by simp
  then show ?thesis using 1(1,6) 2(1,6) by simp
qed

end
